theory Spec2Isabelle
  imports Complex_Main "HOL-Library.Word" "HOL-Library.AList" "HOL-Library.Sublist"
begin

section \<open>Time\<close>

text \<open>
  A \<open>Time\<close> is the object \<open>{sec, nsec}\<close> of the rostime package. The players import
  \<open>add\<close>, \<open>compare\<close>, \<open>clampTime\<close>, \<open>subtract\<close> and \<open>areEqual\<close> from it; the package is
  not under \<open>src/\<close>.
\<close>

record time =
  sec :: int
  nsec :: int

datatype player_error =
  CannotNormalizeTime
  | ParameterEditingNotSupported
  | PublishingNotSupported
  | PublishTopicNotRegistered string

text \<open>
  Modelled from the spec: the Time operations are not under \<open>src/\<close>; section 3 has
  "Time: a monotonically comparable timestamp (seconds + sub-second remainder); supports
  add, subtract, compare, clamp-to-range". \<open>compare\<close> orders by seconds, then by the
  remainder; its sign is the order.
\<close>

definition compare :: "time \<Rightarrow> time \<Rightarrow> int" where
  "compare left right =
     (let secDiff = sec left - sec right
      in if secDiff \<noteq> 0 then secDiff else nsec left - nsec right)"

definition areEqual :: "time \<Rightarrow> time \<Rightarrow> bool" where
  "areEqual a b = (sec a = sec b \<and> nsec a = nsec b)"

text \<open>
  Modelled from the spec: normalisation carries whole seconds out of the remainder
  ("Arithmetic must not lose sub-unit precision"); a sum that normalises to a negative
  time raises, a difference may be negative.
\<close>

definition fixTime :: "time \<Rightarrow> bool \<Rightarrow> player_error + time" where
  "fixTime t allowNegative =
     (let result = \<lparr>sec = sec t + nsec t div 1000000000, nsec = nsec t mod 1000000000\<rparr>
      in if \<not> allowNegative \<and> sec result < 0 then Inl CannotNormalizeTime else Inr result)"

definition add :: "time \<Rightarrow> time \<Rightarrow> player_error + time" where
  "add a b = fixTime \<lparr>sec = sec a + sec b, nsec = nsec a + nsec b\<rparr> False"

definition subtractTimes :: "time \<Rightarrow> time \<Rightarrow> player_error + time" where
  "subtractTimes a b = fixTime \<lparr>sec = sec a - sec b, nsec = nsec a - nsec b\<rparr> True"

text \<open>Modelled from the spec: "clamp-to-range"; the result is a copy of one argument.\<close>

definition clampTime :: "time \<Rightarrow> time \<Rightarrow> time \<Rightarrow> time" where
  "clampTime t start end' =
     (if compare start t > 0 then \<lparr>sec = sec start, nsec = nsec start\<rparr>
      else if compare end' t < 0 then \<lparr>sec = sec end', nsec = nsec end'\<rparr>
      else \<lparr>sec = sec t, nsec = nsec t\<rparr>)"

text \<open>A well-formed Time: non-negative, with the remainder below one second.\<close>

definition isTime :: "time \<Rightarrow> bool" where
  "isTime t = (0 \<le> sec t \<and> 0 \<le> nsec t \<and> nsec t < 1000000000)"


section \<open>Player state as delivered to the listener\<close>

type_synonym byte = "8 word"

record message_event =
  topic :: string
  receiveTime :: time
  message :: "byte list"
  sizeInBytes :: "nat option"

record topic_info =
  topicName :: string
  topicDatatype :: string

datatype severity = Info | Warn | Err

record player_problem =
  severity :: severity
  problemMessage :: string

datatype player_presence = NOT_PRESENT | INITIALIZING | PRESENT | RECONNECTING | ERROR

datatype player_capability = Cap_setSpeed | Cap_playbackControl | Cap_advertise

text \<open>
  \<open>activeData\<close> of a \<open>PlayerState\<close>. Of its fields the model leaves out
  \<open>totalBytesReceived\<close>, \<open>messageOrder\<close>, \<open>datatypes\<close>, \<open>publishedTopics\<close> and
  \<open>parsedMessageDefinitionsByTopic\<close>, which the players copy through unchanged.
\<close>

record active_data =
  messages :: "message_event list"
  currentTime :: time
  startTime :: time
  endTime :: time
  isPlaying :: bool
  speed :: real
  lastSeekTime :: int
  topics :: "topic_info list"

record player_state =
  presence :: player_presence
  capabilities :: "player_capability list"
  problems :: "player_problem list option"
  activeData :: "active_data option"


section \<open>RandomAccessPlayer\<close>

text \<open>
  The fields \<open>this._x\<close> of the class are the fields \<open>p_x\<close> of the record. A JavaScript
  \<open>Map\<close> keeps insertion order, so \<open>_problems\<close> is an association list; a \<open>Set\<close> of
  strings is a duplicate-free list in insertion order.

  What the player does to its collaborators is logged in the state:
  \<open>providerCloseCalls\<close> and \<open>metricsCloseCalls\<close> count \<open>_provider.close()\<close> and
  \<open>_metricsCollector.close()\<close>, \<open>emitted\<close> lists the snapshots handed to the listener,
  oldest first. The other calls on the metrics collector are not tracked.

  \<open>_emitState\<close> is \<open>debouncePromise\<close> of the emitting function: \<open>emitRunning\<close> says that
  a delivery is in flight (\<open>currentPromise\<close> is set), \<open>emitCalledWhileRunning\<close> that
  another one was asked for meanwhile.

  \<open>p_tick\<close> holds the locals of \<open>_tick\<close> that live across its awaits while a tick
  is in flight (the reading mutex admits one loop of ticks), \<open>p_backfill\<close> those of the
  backfill read in flight, during which \<open>_backfillMutex\<close> is locked;
  \<open>p_nextReadStartTimeRef\<close> counts the assignments to \<open>_nextReadStartTime\<close>, since the
  backfill loop compares that field by reference.
\<close>

record backfill_read =
  bf_readStartTime :: time
  bf_readStartTimeRef :: nat
  bf_backfillStart :: time
  bf_backfillEnd :: time
  bf_backfillDuration :: "time option"
  bf_parsedTopics :: "string list"

record tick_read =
  tr_seekTime :: int
  tr_start :: time
  tr_end :: time
  tr_parsedTopics :: "string list"

record player =
  p_isPlaying :: bool
  p_listener :: bool
  p_speed :: real
  p_start :: time
  p_end :: time
  p_nextReadStartTime :: time
  p_nextReadStartTimeRef :: nat
  p_lastSeekStartTime :: int
  p_lastSeekEmitTime :: int
  p_cancelSeekBackfill :: bool
  p_parsedSubscribedTopics :: "string list"
  p_providerTopics :: "topic_info list"
  p_initializing :: bool
  p_initialized :: bool
  p_reconnecting :: bool
  p_messages :: "message_event list"
  p_hasError :: bool
  p_closed :: bool
  p_currentTime :: "time option"
  p_problems :: "(string \<times> player_problem) list"
  p_readingLocked :: bool
  p_tick :: "tick_read option"
  p_backfill :: "backfill_read option"
  emitRunning :: bool
  emitCalledWhileRunning :: bool
  emitted :: "player_state list"
  providerCloseCalls :: nat
  metricsCloseCalls :: nat

text \<open>The constructor; \<open>now\<close> is \<open>Date.now()\<close>.\<close>

definition new_player :: "int \<Rightarrow> player" where
  "new_player now =
     \<lparr>p_isPlaying = False, p_listener = False, p_speed = 0.2,
      p_start = \<lparr>sec = 0, nsec = 0\<rparr>, p_end = \<lparr>sec = 0, nsec = 0\<rparr>,
      p_nextReadStartTime = \<lparr>sec = 0, nsec = 0\<rparr>, p_nextReadStartTimeRef = 0,
      p_lastSeekStartTime = now, p_lastSeekEmitTime = now,
      p_cancelSeekBackfill = False, p_parsedSubscribedTopics = [], p_providerTopics = [],
      p_initializing = True, p_initialized = False, p_reconnecting = False,
      p_messages = [], p_hasError = False, p_closed = False, p_currentTime = None,
      p_problems = [], p_readingLocked = False, p_tick = None, p_backfill = None,
      emitRunning = False, emitCalledWhileRunning = False, emitted = [],
      providerCloseCalls = 0, metricsCloseCalls = 0\<rparr>"

definition SEEK_BACK_NANOSECONDS :: int where
  "SEEK_BACK_NANOSECONDS = 299 * 1000000"

subsection \<open>Emitting state\<close>

text \<open>
  An operation either returns, leaving a state, or raises, leaving the state it had
  reached: \<open>Inl (e, s)\<close> is the raise of \<open>e\<close> in state \<open>s\<close>.
\<close>

type_synonym outcome = "(player_error \<times> player) + player"

definition deliver :: "player_state \<Rightarrow> player \<Rightarrow> player" where
  "deliver ps s = s\<lparr>emitted := emitted s @ [ps], emitRunning := True\<rparr>"

text \<open>
  The function wrapped by \<open>debouncePromise\<close>; \<open>lastEnd\<close> is its local of that name,
  the read cursor less one nanosecond. It raises only where \<open>add\<close> does. Without
  a listener it returns a resolved promise, and nothing is in flight afterwards.
\<close>

definition lastEnd :: "time \<Rightarrow> player_error + time" where
  "lastEnd nextReadStartTime =
     (if sec nextReadStartTime > 0 \<or> nsec nextReadStartTime > 0
      then add nextReadStartTime \<lparr>sec = 0, nsec = - 1\<rparr> else Inr nextReadStartTime)"

definition emitState_body :: "player \<Rightarrow> outcome" where
  "emitState_body s =
     (if \<not> p_listener s then Inr s
      else if p_hasError s then
        Inr (deliver \<lparr>presence = ERROR, capabilities = [],
                      problems = Some (map snd (p_problems s)), activeData = None\<rparr> s)
      else
        let msgs = p_messages s;
            s1 = s\<lparr>p_messages := []\<rparr>;
            s2 = (if msgs \<noteq> [] then s1\<lparr>p_cancelSeekBackfill := True\<rparr> else s1)
        in case lastEnd (p_nextReadStartTime s2) of
             Inl e \<Rightarrow> Inl (e, s2)
           | Inr lastEnd' \<Rightarrow>
               let clampedLastEnd = clampTime lastEnd' (p_start s2) (p_end s2);
                   s3 = (case p_currentTime s2 of
                           None \<Rightarrow> s2\<lparr>p_currentTime := Some clampedLastEnd\<rparr>
                         | Some c \<Rightarrow>
                             if compare c clampedLastEnd \<noteq> 0
                             then s2\<lparr>p_currentTime := Some clampedLastEnd\<rparr> else s2)
               in Inr (deliver
                    \<lparr>presence = (if p_reconnecting s3 then RECONNECTING
                                  else if p_initializing s3 then INITIALIZING else PRESENT),
                     capabilities = [Cap_setSpeed, Cap_playbackControl],
                     problems = (if p_problems s3 \<noteq> [] then Some (map snd (p_problems s3))
                                 else None),
                     activeData =
                       (if p_initializing s3 then None
                        else Some \<lparr>messages = msgs,
                                   currentTime = the (p_currentTime s3),
                                   startTime = p_start s3,
                                   endTime = p_end s3,
                                   isPlaying = p_isPlaying s3,
                                   speed = p_speed s3,
                                   lastSeekTime = p_lastSeekEmitTime s3,
                                   topics = p_providerTopics s3\<rparr>)\<rparr> s3))"

text \<open>
  Modelled from the spec: \<open>debouncePromise\<close> is not under \<open>src/\<close>; section 6 has
  "invoked at-most-once-in-flight (engine awaits completion of the previous delivery
  before issuing the next)" and section 4.1 "emissions MAY be coalesced". A call during a
  delivery is remembered and runs once the delivery has finished.
\<close>

definition emitState :: "player \<Rightarrow> outcome" where
  "emitState s =
     (if emitRunning s then Inr (s\<lparr>emitCalledWhileRunning := True\<rparr>)
      else emitState_body s)"

definition listener_resolved :: "player \<Rightarrow> outcome" where
  "listener_resolved s =
     (let s1 = s\<lparr>emitRunning := False\<rparr>
      in if emitCalledWhileRunning s1
         then emitState_body (s1\<lparr>emitCalledWhileRunning := False\<rparr>)
         else Inr s1)"

subsection \<open>Errors and initialisation\<close>

definition setError :: "string \<Rightarrow> player \<Rightarrow> outcome" where
  "setError msg s =
     (let s1 = s\<lparr>p_hasError := True,
                 p_problems := AList.update ''global-error''
                    \<lparr>severity = Err, problemMessage = msg\<rparr> (p_problems s),
                 p_isPlaying := False\<rparr>;
          s2 = (if \<not> p_initializing s1
                then s1\<lparr>providerCloseCalls := Suc (providerCloseCalls s1)\<rparr> else s1)
      in emitState s2)"

text \<open>
  \<open>setListener\<close> stores the listener, emits, and starts \<open>_provider.initialize\<close>; the
  promise's outcome arrives later as \<open>initialize_resolved\<close> or \<open>initialize_rejected\<close>.
\<close>

definition setListener :: "player \<Rightarrow> outcome" where
  "setListener s = emitState (s\<lparr>p_listener := True\<rparr>)"

definition reportInitialized :: "player \<Rightarrow> player" where
  "reportInitialized s =
     (if p_initializing s \<or> p_initialized s then s else s\<lparr>p_initialized := True\<rparr>)"

definition setNextReadStartTime :: "time \<Rightarrow> player \<Rightarrow> player" where
  "setNextReadStartTime t s =
     s\<lparr>p_nextReadStartTime := clampTime t (p_start s) (p_end s),
       p_nextReadStartTimeRef := Suc (p_nextReadStartTimeRef s)\<rparr>"

text \<open>
  Modelled from the spec: \<open>getSanitizedTopics\<close> is not under \<open>src/\<close>; section 3 has "the
  engine computes the union of requested topics filtered to those actually available".
\<close>

definition getSanitizedTopics :: "string list \<Rightarrow> topic_info list \<Rightarrow> string list" where
  "getSanitizedTopics subscribedTopics providerTopics =
     filter (\<lambda>t. t \<in> set (map topicName providerTopics)) subscribedTopics"

subsection \<open>Reading messages\<close>

text \<open>
  \<open>_getMessages\<close> computes the topics to ask for, and returns at once when there are
  none. Otherwise it awaits \<open>_provider.getMessages\<close>; \<open>getMessages_complete\<close> is the part
  after the await, given the \<open>parsedMessages\<close> of the provider's answer (\<open>None\<close> when the
  answer has none).
\<close>

fun filterMessages ::
  "topic_info list \<Rightarrow> string list \<Rightarrow> message_event list \<Rightarrow> (string \<times> player_problem) list
   \<Rightarrow> message_event list \<times> (string \<times> player_problem) list" where
  "filterMessages providerTopics tps [] probs = ([], probs)"
| "filterMessages providerTopics tps (m # ms) probs =
     (let probs1 = AList.delete (topic m) probs
      in if topic m \<notin> set tps then
           filterMessages providerTopics tps ms
             (AList.update (topic m)
                \<lparr>severity = Warn,
                 problemMessage = ''Unexpected topic encountered: '' @ topic m @ ''. Skipping message''\<rparr>
                probs1)
         else
           case find (\<lambda>t. topicName t = topic m) providerTopics of
             None \<Rightarrow>
               filterMessages providerTopics tps ms
                 (AList.update (topic m)
                    \<lparr>severity = Warn,
                     problemMessage = ''Unexpected message on topic: '' @ topic m @ ''. Skipping message''\<rparr>
                    probs1)
           | Some t \<Rightarrow>
               if topicDatatype t = [] then
                 filterMessages providerTopics tps ms
                   (AList.update (topic m)
                      \<lparr>severity = Warn,
                       problemMessage = ''Missing datatype for topic: '' @ topic m @ ''. Skipping message''\<rparr>
                      probs1)
               else
                 (let (out, probs2) = filterMessages providerTopics tps ms probs1
                  in (\<lparr>topic = topic m, receiveTime = receiveTime m, message = message m,
                       sizeInBytes = None\<rparr> # out, probs2)))"

definition getMessages_complete ::
  "string list \<Rightarrow> message_event list option \<Rightarrow> player \<Rightarrow> message_event list \<times> player" where
  "getMessages_complete parsedTopics res s =
     (if parsedTopics = [] then ([], s)
      else case res of
        None \<Rightarrow>
          ([], s\<lparr>p_problems := AList.update ''bad-messages''
                   \<lparr>severity = Err, problemMessage = ''Bad set of messages''\<rparr> (p_problems s)\<rparr>)
      | Some parsedMessages \<Rightarrow>
          (let (out, probs) =
                 filterMessages (p_providerTopics s) parsedTopics parsedMessages
                   (AList.delete ''bad-messages'' (p_problems s))
           in (out, s\<lparr>p_problems := probs\<rparr>)))"

subsection \<open>The tick\<close>

text \<open>
  \<open>_tick\<close> runs in two parts around its awaits. \<open>tick_begin\<close> is the part before
  \<open>await this._getMessages(start, end)\<close>: it returns \<open>None\<close> where the source returns
  early, and otherwise the locals that live across the await. The length of the read,
  \<open>fromMillis(rangeMillis)\<close>, comes from wall-clock and floating-point pacing
  arithmetic and is the argument \<open>rangeTime\<close>. \<open>tick_complete\<close> is the part after
  \<open>await this._emitState.currentPromise\<close>, given what \<open>_getMessages\<close> returned.
\<close>

definition tick_begin :: "time \<Rightarrow> player \<Rightarrow> player_error + tick_read option" where
  "tick_begin rangeTime s =
     (if p_initializing s \<or> \<not> p_isPlaying s \<or> p_hasError s then Inr None
      else if compare (p_nextReadStartTime s) (p_end s) > 0 then Inr None
      else case add (p_nextReadStartTime s) rangeTime of
             Inl e \<Rightarrow> Inl e
           | Inr t \<Rightarrow>
               Inr (Some \<lparr>tr_seekTime = p_lastSeekStartTime s,
                          tr_start = clampTime (p_nextReadStartTime s) (p_start s) (p_end s),
                          tr_end = clampTime t (p_start s) (p_end s),
                          tr_parsedTopics =
                            getSanitizedTopics (p_parsedSubscribedTopics s) (p_providerTopics s)\<rparr>))"

definition tick_complete :: "tick_read \<Rightarrow> message_event list \<Rightarrow> player \<Rightarrow> outcome" where
  "tick_complete r msgs s =
     (if p_lastSeekStartTime s \<noteq> tr_seekTime r then Inr s
      else case add (tr_end r) \<lparr>sec = 0, nsec = 1\<rparr> of
             Inl e \<Rightarrow> Inl (e, s)
           | Inr t \<Rightarrow>
               let s1 = s\<lparr>p_nextReadStartTime := t,
                           p_nextReadStartTimeRef := Suc (p_nextReadStartTimeRef s)\<rparr>
               in if \<not> p_isPlaying s1 then Inr s1
                  else emitState (s1\<lparr>p_messages := p_messages s1 @ msgs\<rparr>))"

text \<open>
  The loop of \<open>_read\<close> runs one tick after the other while the player is playing. A
  raise in a tick is caught there and becomes \<open>_setError\<close>. \<open>tick_started\<close> is the loop
  entering \<open>_tick\<close>, \<open>tick_finished\<close> the provider's answer \<open>res\<close> arriving and the tick
  running to its end, \<open>read_finished\<close> the loop ending and releasing the mutex.
\<close>

definition tick_started :: "time \<Rightarrow> player \<Rightarrow> outcome" where
  "tick_started rangeTime s =
     (if \<not> p_readingLocked s \<or> p_tick s \<noteq> None \<or> \<not> (p_isPlaying s \<and> \<not> p_hasError s) then Inr s
      else case tick_begin rangeTime s of
             Inl e \<Rightarrow> setError ''Cannot normalize invalid time'' (s\<lparr>p_readingLocked := False\<rparr>)
           | Inr r \<Rightarrow> Inr (s\<lparr>p_tick := r\<rparr>))"

definition tick_finished :: "message_event list option \<Rightarrow> player \<Rightarrow> outcome" where
  "tick_finished res s =
     (case p_tick s of
        None \<Rightarrow> Inr s
      | Some r \<Rightarrow>
          (let (msgs, s1) = getMessages_complete (tr_parsedTopics r) res (s\<lparr>p_tick := None\<rparr>)
           in case tick_complete r msgs s1 of
                Inl (e, s2) \<Rightarrow>
                  setError ''Cannot normalize invalid time'' (s2\<lparr>p_readingLocked := False\<rparr>)
              | Inr s2 \<Rightarrow> Inr s2))"

definition read_finished :: "player \<Rightarrow> outcome" where
  "read_finished s =
     (if p_tick s = None \<and> \<not> (p_isPlaying s \<and> \<not> p_hasError s)
      then Inr (s\<lparr>p_readingLocked := False\<rparr>) else Inr s)"

text \<open>
  The promise of \<open>_provider.getMessages\<close> that a tick awaits may reject, with an error
  whose message is \<open>msg\<close>. The rejection passes through \<open>_getMessages\<close> and \<open>_tick\<close> to
  the \<open>catch\<close> of \<open>_read\<close>, which calls \<open>_setError\<close>; then the mutex is released. The
  provider is asked only when there are topics to read.
\<close>

definition tick_rejected :: "string \<Rightarrow> player \<Rightarrow> outcome" where
  "tick_rejected msg s =
     (case p_tick s of
        None \<Rightarrow> Inr s
      | Some r \<Rightarrow>
          if tr_parsedTopics r = [] then Inr s
          else setError msg (s\<lparr>p_tick := None, p_readingLocked := False\<rparr>))"

subsection \<open>Seeking and backfill\<close>

text \<open>
  One pass of the do-loop of \<open>_seekPlaybackInternal\<close>, from its top to the await of the
  backfill read. The function is async: a raise of \<open>add\<close> in it rejects a promise
  that nobody awaits, and the state stays as it was at the raise.
\<close>

definition backfill_pass :: "time option \<Rightarrow> int \<Rightarrow> player \<Rightarrow> player" where
  "backfill_pass backfillDuration now s =
     (if p_isPlaying s then s\<lparr>p_lastSeekEmitTime := now\<rparr>
      else
        let readStartTime = p_nextReadStartTime s;
            s1 = s\<lparr>p_cancelSeekBackfill := False, p_messages := []\<rparr>;
            backfillEnd = clampTime readStartTime (p_start s1) (p_end s1);
            internalBackfillDuration =
              \<lparr>sec = 0, nsec = (if p_isPlaying s1 then 0 else SEEK_BACK_NANOSECONDS)\<rparr>
        in case add internalBackfillDuration
                  (case backfillDuration of None \<Rightarrow> \<lparr>sec = 0, nsec = 0\<rparr> | Some d \<Rightarrow> d) of
             Inl e \<Rightarrow> s1
           | Inr totalBackfillDuration \<Rightarrow>
               (case subtractTimes readStartTime totalBackfillDuration of
                  Inl e \<Rightarrow> s1
                | Inr t \<Rightarrow>
                    s1\<lparr>p_backfill := Some
                         \<lparr>bf_readStartTime = readStartTime,
                          bf_readStartTimeRef = p_nextReadStartTimeRef s1,
                          bf_backfillStart = clampTime t (p_start s1) (p_end s1),
                          bf_backfillEnd = backfillEnd,
                          bf_backfillDuration = backfillDuration,
                          bf_parsedTopics =
                            getSanitizedTopics (p_parsedSubscribedTopics s1)
                              (p_providerTopics s1)\<rparr>\<rparr>))"

definition seekPlaybackInternal :: "time option \<Rightarrow> int \<Rightarrow> player \<Rightarrow> player" where
  "seekPlaybackInternal backfillDuration now s =
     (if p_backfill s \<noteq> None then s else backfill_pass backfillDuration now s)"

definition seekPlayback :: "time \<Rightarrow> time option \<Rightarrow> int \<Rightarrow> player \<Rightarrow> outcome" where
  "seekPlayback t backfillDuration now s =
     (if \<not> p_initialized s then Inr s
      else Inr (seekPlaybackInternal backfillDuration now (setNextReadStartTime t s)))"

text \<open>
  The rest of the loop's pass, once the backfill read has returned \<open>res\<close>: the messages
  are emitted when no seek and no emission of messages came in between; otherwise the
  loop runs again when \<open>_nextReadStartTime\<close> is another object than the one read at the
  top of the pass. Raises reject the async function's promise.
\<close>

definition backfill_complete :: "message_event list option \<Rightarrow> int \<Rightarrow> player \<Rightarrow> player" where
  "backfill_complete res now s =
     (case p_backfill s of
        None \<Rightarrow> s
      | Some b \<Rightarrow>
          (let (msgs, s1) = getMessages_complete (bf_parsedTopics b) res (s\<lparr>p_backfill := None\<rparr>)
           in if areEqual (p_nextReadStartTime s1) (bf_readStartTime b) \<and> \<not> p_cancelSeekBackfill s1
              then
                (case add (bf_backfillEnd b) \<lparr>sec = 0, nsec = 1\<rparr> of
                   Inl e \<Rightarrow> s1
                 | Inr t \<Rightarrow>
                     (case emitState
                             (s1\<lparr>p_nextReadStartTime := t,
                                 p_nextReadStartTimeRef := Suc (p_nextReadStartTimeRef s1),
                                 p_messages := msgs,
                                 p_lastSeekEmitTime := now\<rparr>) of
                        Inl (e, s2) \<Rightarrow> s2
                      | Inr s2 \<Rightarrow> s2))
              else if bf_readStartTimeRef b \<noteq> p_nextReadStartTimeRef s1
              then backfill_pass (bf_backfillDuration b) now s1
              else s1))"

text \<open>
  The promise of \<open>_provider.getMessages\<close> that the backfill awaits may reject as well.
  \<open>runExclusive\<close> releases the mutex and passes the rejection on to
  \<open>_seekPlaybackInternal\<close>, which has no \<open>try\<close>: the promise it returned is rejected,
  and \<open>seekPlayback\<close> discarded that promise with \<open>void\<close>.
\<close>

definition backfill_rejected :: "player \<Rightarrow> player" where
  "backfill_rejected s =
     (case p_backfill s of
        None \<Rightarrow> s
      | Some b \<Rightarrow> if bf_parsedTopics b = [] then s else s\<lparr>p_backfill := None\<rparr>)"

subsection \<open>Initialisation\<close>

text \<open>
  What \<open>_provider.initialize\<close> resolves to, as far as the player reads it; \<open>in_raw\<close> says
  that \<open>messageDefinitions.type\<close> is \<open>"raw"\<close>. \<open>getSeekTimeFromSpec\<close> is not under \<open>src/\<close>:
  the time it returns is the argument \<open>initialTime\<close>. A raise in the handler is caught
  by the promise's \<open>catch\<close>.
\<close>

record initialization =
  in_start :: time
  in_end :: time
  in_topics :: "topic_info list"
  in_providesParsedMessages :: bool
  in_raw :: bool

definition initialize_rejected :: "player \<Rightarrow> outcome" where
  "initialize_rejected s = setError ''Error initializing player'' s"

definition initialize_resolved :: "initialization \<Rightarrow> time \<Rightarrow> int \<Rightarrow> player \<Rightarrow> outcome" where
  "initialize_resolved r initialTime now s =
     (case (if \<not> in_providesParsedMessages r then setError ''Incorrect message format'' s
            else if in_raw r then setError ''Missing message definitions'' s
            else
              seekPlayback initialTime None now
                (reportInitialized
                   (s\<lparr>p_start := in_start r,
                      p_nextReadStartTime := initialTime,
                      p_nextReadStartTimeRef := Suc (p_nextReadStartTimeRef s),
                      p_end := in_end r,
                      p_providerTopics := in_topics r,
                      p_initializing := False,
                      p_currentTime := Some initialTime\<rparr>))) of
        Inl (e, s') \<Rightarrow> initialize_rejected s'
      | Inr s' \<Rightarrow> Inr s')"

text \<open>The callbacks the provider gets: progress (not kept in the model) and reconnecting.\<close>

definition progressCallback :: "player \<Rightarrow> outcome" where
  "progressCallback s = (if \<not> p_isPlaying s then emitState s else Inr s)"

definition updateReconnecting :: "bool \<Rightarrow> player \<Rightarrow> outcome" where
  "updateReconnecting reconnecting s = emitState (s\<lparr>p_reconnecting := reconnecting\<rparr>)"

subsection \<open>The other operations of the Player interface\<close>

text \<open>\<open>startPlayback\<close> ends with \<open>void this._read()\<close>, which takes the reading mutex.\<close>

definition startPlayback :: "player \<Rightarrow> outcome" where
  "startPlayback s =
     (if p_isPlaying s then Inr s
      else case emitState (s\<lparr>p_isPlaying := True\<rparr>) of
             Inl (e, s') \<Rightarrow> Inl (e, s')
           | Inr s' \<Rightarrow> Inr (s'\<lparr>p_readingLocked := True\<rparr>))"

definition pausePlayback :: "player \<Rightarrow> outcome" where
  "pausePlayback s =
     (if \<not> p_isPlaying s then Inr s else emitState (s\<lparr>p_isPlaying := False\<rparr>))"

definition setPlaybackSpeed :: "real \<Rightarrow> player \<Rightarrow> outcome" where
  "setPlaybackSpeed v s = emitState (s\<lparr>p_speed := v\<rparr>)"

text \<open>\<open>new Set(...)\<close> keeps the first of equal topics.\<close>

fun newSet :: "string list \<Rightarrow> string list" where
  "newSet [] = []"
| "newSet (x # xs) = x # newSet (filter (\<lambda>y. y \<noteq> x) xs)"

definition setSubscriptions :: "string list \<Rightarrow> player \<Rightarrow> outcome" where
  "setSubscriptions newSubscriptions s =
     Inr (s\<lparr>p_parsedSubscribedTopics := newSet newSubscriptions\<rparr>)"

definition setPublishers :: "string list \<Rightarrow> player \<Rightarrow> outcome" where
  "setPublishers publishers s = Inr s"

definition setParameter :: "string \<Rightarrow> string \<Rightarrow> player \<Rightarrow> outcome" where
  "setParameter key v s = Inl (ParameterEditingNotSupported, s)"

definition publish :: "string \<Rightarrow> player \<Rightarrow> outcome" where
  "publish payload s = Inl (PublishingNotSupported, s)"

definition close :: "player \<Rightarrow> outcome" where
  "close s =
     (let s1 = s\<lparr>p_isPlaying := False, p_closed := True\<rparr>;
          s2 = (if \<not> p_initializing s1 \<and> \<not> p_hasError s1
                then s1\<lparr>providerCloseCalls := Suc (providerCloseCalls s1)\<rparr> else s1)
      in Inr (s2\<lparr>metricsCloseCalls := Suc (metricsCloseCalls s2)\<rparr>))"

subsection \<open>Runs of the player\<close>

text \<open>
  Everything that happens to a player: the calls of the Player interface, and the
  completions of what it awaits (the listener, the provider's initialisation, its reads),
  among them the rejections of the provider's promises. A raise leaves the player in the
  state it had reached.
\<close>

datatype event =
  SetListener
  | ListenerResolved
  | InitializeResolved initialization time int
  | InitializeRejected
  | ProgressCallback
  | UpdateReconnecting bool
  | StartPlayback
  | PausePlayback
  | SetPlaybackSpeed real
  | SeekPlayback time "time option" int
  | BackfillComplete "message_event list option" int
  | SetSubscriptions "string list"
  | SetPublishers "string list"
  | SetParameter string string
  | Publish string
  | Close
  | TickStarted time
  | TickFinished "message_event list option"
  | ReadFinished
  | TickRejected string
  | BackfillRejected

fun step :: "event \<Rightarrow> player \<Rightarrow> outcome" where
  "step SetListener s = setListener s"
| "step ListenerResolved s = listener_resolved s"
| "step (InitializeResolved r initialTime now) s = initialize_resolved r initialTime now s"
| "step InitializeRejected s = initialize_rejected s"
| "step ProgressCallback s = progressCallback s"
| "step (UpdateReconnecting b) s = updateReconnecting b s"
| "step StartPlayback s = startPlayback s"
| "step PausePlayback s = pausePlayback s"
| "step (SetPlaybackSpeed v) s = setPlaybackSpeed v s"
| "step (SeekPlayback t backfillDuration now) s = seekPlayback t backfillDuration now s"
| "step (BackfillComplete res now) s = Inr (backfill_complete res now s)"
| "step (SetSubscriptions subs) s = setSubscriptions subs s"
| "step (SetPublishers pubs) s = setPublishers pubs s"
| "step (SetParameter key v) s = setParameter key v s"
| "step (Publish payload) s = publish payload s"
| "step Close s = close s"
| "step (TickStarted rangeTime) s = tick_started rangeTime s"
| "step (TickFinished res) s = tick_finished res s"
| "step ReadFinished s = read_finished s"
| "step (TickRejected msg) s = tick_rejected msg s"
| "step BackfillRejected s = Inr (backfill_rejected s)"

definition state_of :: "outcome \<Rightarrow> player" where
  "state_of r = (case r of Inl (e, s) \<Rightarrow> s | Inr s \<Rightarrow> s)"

fun run :: "event list \<Rightarrow> player \<Rightarrow> player" where
  "run [] s = s"
| "run (e # es) s = run es (state_of (step e s))"


subsection \<open>Invariants of a run\<close>




subsection \<open>An example run\<close>

text \<open>
  A provider with the range 0 s to 10 s and one topic; the player is given a listener,
  initialises, backfills, and plays one tick of 20 ms that reads one message.
\<close>

definition example_message :: message_event where
  "example_message =
     \<lparr>topic = ''/a'', receiveTime = \<lparr>sec = 0, nsec = 5000000\<rparr>, message = [1, 2, 3],
      sizeInBytes = Some 3\<rparr>"

definition example_initialization :: initialization where
  "example_initialization =
     \<lparr>in_start = \<lparr>sec = 0, nsec = 0\<rparr>, in_end = \<lparr>sec = 10, nsec = 0\<rparr>,
      in_topics = [\<lparr>topicName = ''/a'', topicDatatype = ''std_msgs/String''\<rparr>],
      in_providesParsedMessages = True, in_raw = False\<rparr>"

definition example_start :: "event list" where
  "example_start =
     [SetListener, ListenerResolved,
      InitializeResolved example_initialization \<lparr>sec = 0, nsec = 0\<rparr> 1000,
      BackfillComplete (Some []) 1001, ListenerResolved,
      SetSubscriptions [''/a''], StartPlayback, ListenerResolved]"

definition example_run :: "event list" where
  "example_run =
     example_start @ [TickStarted \<lparr>sec = 0, nsec = 20000000\<rparr>, TickFinished (Some [example_message])]"


section \<open>RosbridgePlayer\<close>

text \<open>
  The fields \<open>this._x\<close> of the class that the operations of the Player interface and
  the message handler read and write are the fields \<open>rb_x\<close>; \<open>rb_rosClient\<close> says that
  \<open>_rosClient\<close> is set, \<open>rb_emitTimer\<close> that a timer is pending. A \<open>Map\<close> is the list of
  its keys in insertion order. The connection handling (\<open>_open\<close>, \<open>_requestTopics\<close>) is
  left out. \<open>rosClientCloseCalls\<close> and \<open>rb_metricsCloseCalls\<close> count the calls of
  \<open>_rosClient.close()\<close> and \<open>_metricsCollector.close()\<close>, \<open>rb_emitted\<close> lists the snapshots
  handed to the listener.
\<close>

record rosbridge =
  rb_rosClient :: bool
  rb_listener :: bool
  rb_closed :: bool
  rb_providerTopics :: "topic_info list option"
  rb_hasDatatypes :: bool
  rb_start :: "time option"
  rb_clockTime :: "time option"
  rb_topicSubscriptions :: "string list"
  rb_requestedSubscriptions :: "string list"
  rb_parsedMessages :: "message_event list"
  rb_topicPublishers :: "string list"
  rb_advertisements :: "(string \<times> string) list"
  rb_parsedTopics :: "string list"
  rb_messageReaders :: "string list"
  rb_hasReceivedMessage :: bool
  rb_presence :: player_presence
  rb_problems :: "(string \<times> player_problem) list"
  rb_emitTimer :: bool
  rb_emitRunning :: bool
  rb_emitCalledWhileRunning :: bool
  rb_emitted :: "player_state list"
  rosClientCloseCalls :: nat
  rb_metricsCloseCalls :: nat

type_synonym rb_outcome = "(player_error \<times> rosbridge) + rosbridge"

text \<open>
  The emitting function; \<open>now\<close> is \<open>fromMillis(Date.now())\<close>. The player reports itself
  as always playing at speed 1, with the current time as the end of its range.
\<close>

definition rb_getCurrentTime :: "time \<Rightarrow> rosbridge \<Rightarrow> time" where
  "rb_getCurrentTime now s = (case rb_clockTime s of Some t \<Rightarrow> t | None \<Rightarrow> now)"

definition rb_deliver :: "player_state \<Rightarrow> rosbridge \<Rightarrow> rosbridge" where
  "rb_deliver ps s = s\<lparr>rb_emitted := rb_emitted s @ [ps], rb_emitRunning := True\<rparr>"

definition rb_emitState_body :: "time \<Rightarrow> rosbridge \<Rightarrow> rosbridge" where
  "rb_emitState_body now s =
     (if \<not> rb_listener s \<or> rb_closed s then s
      else case (rb_providerTopics s, rb_hasDatatypes s, rb_start s) of
        (Some providerTopics, True, Some start) \<Rightarrow>
          (let s1 = (if rb_presence s = PRESENT then s\<lparr>rb_emitTimer := True\<rparr> else s);
               currentTime = rb_getCurrentTime now s1;
               msgs = rb_parsedMessages s1
           in rb_deliver
                \<lparr>presence = rb_presence s1, capabilities = [Cap_advertise],
                 problems = Some (map snd (rb_problems s1)),
                 activeData =
                   Some \<lparr>messages = msgs, currentTime = currentTime, startTime = start,
                         endTime = currentTime, isPlaying = True, speed = 1,
                         lastSeekTime = 1, topics = providerTopics\<rparr>\<rparr>
                (s1\<lparr>rb_parsedMessages := []\<rparr>))
      | _ \<Rightarrow>
          rb_deliver
            \<lparr>presence = rb_presence s, capabilities = [Cap_advertise],
             problems = Some (map snd (rb_problems s)), activeData = None\<rparr> s)"

definition rb_emitState :: "time \<Rightarrow> rosbridge \<Rightarrow> rosbridge" where
  "rb_emitState now s =
     (if rb_emitRunning s then s\<lparr>rb_emitCalledWhileRunning := True\<rparr>
      else rb_emitState_body now s)"


definition rb_close :: "rosbridge \<Rightarrow> rb_outcome" where
  "rb_close s =
     (let s1 = s\<lparr>rb_closed := True\<rparr>;
          s2 = (if rb_rosClient s1 then s1\<lparr>rosClientCloseCalls := Suc (rosClientCloseCalls s1)\<rparr>
                else s1);
          s3 = (if rb_emitTimer s2 then s2\<lparr>rb_emitTimer := False\<rparr> else s2)
      in Inr (s3\<lparr>rb_metricsCloseCalls := Suc (rb_metricsCloseCalls s3),
                 rb_hasReceivedMessage := False\<rparr>))"












text \<open>
  The handler of a message on a subscribed topic. What the message reader does is its
  arguments: \<open>msgSize\<close> is \<open>messageReader.size(bytes)\<close> for a lazy reader, \<open>innerMessage\<close>
  what \<open>readMessage\<close> returns (\<open>None\<close> when it raises), \<open>clock\<close> the time of a clock
  message. The event it queues carries the size of the buffer.
\<close>

definition rb_onMessage ::
  "string \<Rightarrow> byte list \<Rightarrow> nat option \<Rightarrow> byte list option \<Rightarrow> time option \<Rightarrow> time \<Rightarrow> rosbridge
   \<Rightarrow> rosbridge" where
  "rb_onMessage name bytes msgSize innerMessage clock now s =
     (let problemId = ''message:'' @ name
      in if rb_providerTopics s = None then s
      else if (case msgSize of None \<Rightarrow> False | Some n \<Rightarrow> n > length bytes) then
        rb_emitState now
          (s\<lparr>rb_problems := AList.update problemId
                \<lparr>severity = Err,
                 problemMessage = ''Message buffer not large enough on '' @ name\<rparr>
                (rb_problems s)\<rparr>)
      else case innerMessage of
        None \<Rightarrow>
          rb_emitState now
            (s\<lparr>rb_problems := AList.update problemId
                  \<lparr>severity = Err, problemMessage = ''Failed to parse message on '' @ name\<rparr>
                  (rb_problems s)\<rparr>)
      | Some inner \<Rightarrow>
          (let s1 = (case clock of
                       Some t \<Rightarrow>
                         if name = ''/clock''
                         then (if rb_clockTime s = None then s\<lparr>rb_start := Some t\<rparr> else s)
                                \<lparr>rb_clockTime := Some t\<rparr>
                         else s
                     | None \<Rightarrow> s);
               receiveTime = rb_getCurrentTime now s1;
               s2 = s1\<lparr>rb_hasReceivedMessage := True\<rparr>;
               s3 = (if name \<in> set (rb_parsedTopics s2)
                     then s2\<lparr>rb_parsedMessages := rb_parsedMessages s2 @
                            [\<lparr>topic = name, receiveTime = receiveTime, message = inner,
                              sizeInBytes = Some (length bytes)\<rparr>]\<rparr>
                     else s2)
           in rb_emitState now (s3\<lparr>rb_problems := AList.delete problemId (rb_problems s3)\<rparr>)))"


section \<open>Example runs\<close>

text \<open>A seek to the start of the range while the read of a tick is in flight.\<close>

definition seek_during_tick :: "event list" where
  "seek_during_tick =
     example_start @
     [TickStarted \<lparr>sec = 0, nsec = 20000000\<rparr>, SeekPlayback \<lparr>sec = 0, nsec = 0\<rparr> None 2000,
      TickFinished (Some [example_message])]"

text \<open>A pause while the read of a tick is in flight.\<close>

definition pause_during_tick :: "event list" where
  "pause_during_tick =
     example_start @
     [TickStarted \<lparr>sec = 0, nsec = 20000000\<rparr>, PausePlayback, ListenerResolved,
      TickFinished (Some [example_message])]"

text \<open>A seek back to the start of the range between two ticks, while playing.\<close>

definition seek_back_while_playing :: "event list" where
  "seek_back_while_playing =
     example_run @
     [ListenerResolved, SeekPlayback \<lparr>sec = 0, nsec = 0\<rparr> None 3000,
      TickStarted \<lparr>sec = 0, nsec = 1000000\<rparr>, TickFinished (Some [])]"

text \<open>A Rosbridge player that is connected, with a listener and one advertised topic.\<close>

definition example_rosbridge :: rosbridge where
  "example_rosbridge =
     \<lparr>rb_rosClient = True, rb_listener = True, rb_closed = False,
      rb_providerTopics = Some [\<lparr>topicName = ''/a'', topicDatatype = ''std_msgs/String''\<rparr>],
      rb_hasDatatypes = True, rb_start = Some \<lparr>sec = 100, nsec = 0\<rparr>, rb_clockTime = None,
      rb_topicSubscriptions = [''/a''], rb_requestedSubscriptions = [''/a''],
      rb_parsedMessages = [], rb_topicPublishers = [''/cmd''],
      rb_advertisements = [(''/cmd'', ''std_msgs/String'')], rb_parsedTopics = [''/a''],
      rb_messageReaders = [''std_msgs/String''], rb_hasReceivedMessage = False,
      rb_presence = PRESENT, rb_problems = [], rb_emitTimer = False, rb_emitRunning = False,
      rb_emitCalledWhileRunning = False, rb_emitted = [], rosClientCloseCalls = 0,
      rb_metricsCloseCalls = 0\<rparr>"


section \<open>Runs without a seek\<close>

text \<open>
  Modelled from the spec: \<open>toNanoSec\<close> of rostime is not under \<open>src/\<close>; a Time is
  "seconds + sub-second remainder", here in nanoseconds.
\<close>

definition toNanoSec :: "time \<Rightarrow> int" where
  "toNanoSec t = sec t * 1000000000 + nsec t"

text \<open>
  The events that do not seek (the initialisation ends with a seek), and in which a tick
  asks for a read of a well-formed, hence non-negative, length. The completion of the
  backfill of an earlier seek is one of them.
\<close>

fun forward :: "event \<Rightarrow> bool" where
  "forward (SeekPlayback t backfillDuration now) = False"
| "forward (InitializeResolved r initialTime now) = False"
| "forward (TickStarted rangeTime) = isTime rangeTime"
| "forward e = True"

text \<open>The values of \<open>currentTime\<close> in the snapshots of a log that have \<open>activeData\<close>.\<close>

definition currentTimes :: "player_state list \<Rightarrow> time list" where
  "currentTimes snapshots = List.map_filter (\<lambda>ps. map_option currentTime (activeData ps)) snapshots"

text \<open>
  A player whose range and read cursor are well-formed Times, with the start of the range
  not after its end and the cursor at most one nanosecond after the end. Its tick in
  flight, if any, reads up to a well-formed Time within the range that is not before the
  cursor; when no backfill is in flight the cursor may be one nanosecond after it, which
  is where the commit of a backfill during the tick leaves it. Its backfill in flight, if
  any, ends where \<open>_seekPlaybackInternal\<close> computed \<open>backfillEnd\<close>: at the cursor it
  started from, clamped to the range.
\<close>

definition cursor_ok :: "player \<Rightarrow> bool" where
  "cursor_ok s =
     (isTime (p_start s) \<and> isTime (p_end s) \<and> isTime (p_nextReadStartTime s) \<and>
      compare (p_start s) (p_end s) \<le> 0 \<and>
      toNanoSec (p_nextReadStartTime s) \<le> toNanoSec (p_end s) + 1 \<and>
      (case p_tick s of
         None \<Rightarrow> True
       | Some r \<Rightarrow>
           isTime (tr_end r) \<and> toNanoSec (p_start s) \<le> toNanoSec (tr_end r) \<and>
           toNanoSec (tr_end r) \<le> toNanoSec (p_end s) \<and>
           toNanoSec (p_nextReadStartTime s) \<le>
             toNanoSec (tr_end r) + (if p_backfill s = None then 1 else 0)) \<and>
      (case p_backfill s of
         None \<Rightarrow> True
       | Some b \<Rightarrow> bf_backfillEnd b = clampTime (bf_readStartTime b) (p_start s) (p_end s)))"

text \<open>
  What an emission in state \<open>s\<close> reports as \<open>currentTime\<close>, in nanoseconds, and the
  invariant of a run without a seek: the times reported since the log was \<open>base\<close> are in
  order and none is after what an emission would report now.
\<close>

definition reportedN :: "player \<Rightarrow> int" where
  "reportedN s =
     max (toNanoSec (p_start s))
       (min (toNanoSec (p_end s)) (max 0 (toNanoSec (p_nextReadStartTime s) - 1)))"

definition core ::
  "player \<Rightarrow> time \<times> time \<times> time \<times> tick_read option \<times> backfill_read option \<times> player_state list" where
  "core s = (p_start s, p_end s, p_nextReadStartTime s, p_tick s, p_backfill s, emitted s)"

definition monotone_log :: "player_state list \<Rightarrow> time \<Rightarrow> player \<Rightarrow> bool" where
  "monotone_log base e0 s =
     (cursor_ok s \<and> p_end s = e0 \<and>
      (\<exists>new. emitted s = base @ new \<and>
         sorted_wrt (\<lambda>a b. compare a b \<le> 0) (currentTimes new) \<and>
         list_all (\<lambda>c. isTime c \<and> toNanoSec c \<le> reportedN s) (currentTimes new)))"

text \<open>
  A seek to 5 s while the player is paused, which starts a backfill; then playback starts,
  the backfill completes with one message, and a tick of 20 ms follows.
\<close>

definition example_paused_seek :: "event list" where
  "example_paused_seek =
     [SetListener, ListenerResolved,
      InitializeResolved example_initialization \<lparr>sec = 0, nsec = 0\<rparr> 1000,
      BackfillComplete (Some []) 1001, ListenerResolved,
      SetSubscriptions [''/a''], SeekPlayback \<lparr>sec = 5, nsec = 0\<rparr> None 2000]"

definition play_through_backfill :: "event list" where
  "play_through_backfill =
     [StartPlayback, ListenerResolved, BackfillComplete (Some [example_message]) 2001,
      ListenerResolved, TickStarted \<lparr>sec = 0, nsec = 20000000\<rparr>, TickFinished (Some [])]"

section \<open>Reachable states and failures\<close>







section \<open>McapReader\<close>

text \<open>
  Modelled from the spec: \<open>types.ts\<close>, \<open>parse.ts\<close>, \<open>constants.ts\<close> and \<open>ByteStorage.ts\<close>
  are not under \<open>src/\<close>. A record is "a tagged variant over container-format record kinds";
  its kinds are the six that \<open>read()\<close> switches on, and a Chunk has the three fields that
  \<open>read()\<close> uses: \<open>compression\<close>, \<open>decompressedSize\<close> and \<open>data\<close>. The other kinds
  keep their payload as bytes. The byte storage is the list of the bytes appended and not yet
  consumed: \<open>view\<close> is the list, \<open>consume n\<close> is \<open>drop n\<close>, \<open>bytesRemaining\<close> its
  length.
\<close>

datatype mcap_record =
  ChannelInfo "byte list"
  | Message "byte list"
  | IndexData "byte list"
  | ChunkInfo "byte list"
  | Chunk string nat "byte list"
  | Footer "byte list"

text \<open>
  The errors of the class, one constructor for each \<open>throw\<close>; \<open>ParseFailure\<close> is an
  exception of \<open>parseMagic\<close> or \<open>parseRecord\<close> passing through \<open>read()\<close>, and
  \<open>TypeError\<close> the exception of JavaScript for a call that cannot be made.
\<close>

datatype reader_error =
  AlreadyDoneReading
  | ParseFailure
  | UnsupportedCompression string
  | NotAllowedInsideChunk string
  | BytesRemainingInChunk int
  | BytesRemainingAfterFooter nat
  | TypeError

text \<open>
  Modelled from the spec: \<open>parseMagic\<close> and \<open>parseRecord\<close> are parameters of the model.
  \<open>read()\<close> takes from their result \<open>{magic, usedBytes}\<close> or \<open>{record, usedBytes}\<close>;
  a result without the magic or the record is \<open>Incomplete\<close> ("insufficient bytes are
  available"), and \<open>Malformed\<close> is the parser raising ("malformed magic is fatal"). The
  handlers registered in the object \<open>decompressHandlers\<close> (its own properties) are a
  partial map from the compression name to the handler.
\<close>

datatype 'a parsed = Incomplete | Malformed | Parsed 'a nat

type_synonym magic_parser = "byte list \<Rightarrow> nat \<Rightarrow> unit parsed"
type_synonym record_parser = "byte list \<Rightarrow> nat \<Rightarrow> mcap_record parsed"
type_synonym decompress_handlers = "string \<Rightarrow> (byte list \<Rightarrow> nat \<Rightarrow> byte list) option"

text \<open>
  The expression \<open>this.decompressHandlers[record.compression]\<close> is a property lookup of
  JavaScript: it finds the handler registered under the name, and otherwise what the object
  inherits under that name from \<open>Object.prototype\<close>; the default \<open>{}\<close> and an object
  literal with handlers both inherit from it. \<open>Object_prototype\<close> lists the names.
  Under \<open>constructor\<close> the lookup finds the function \<open>Object\<close>, and \<open>Object(buffer,
  decompressedSize)\<close> returns \<open>buffer\<close>, the DataView over the chunk data. Under each
  other inherited name it finds a value that is not \<open>undefined\<close>, so that \<open>read()\<close> calls
  it: \<open>__proto__\<close> is not a function, the methods other than \<open>toString\<close> raise a
  TypeError when called without a receiver (class code is strict), and \<open>toString\<close>
  returns a string, which has no bytes to parse a record from and no \<open>byteLength\<close> to
  pass the test after the loop; in each case \<open>read()\<close> ends with an exception, which is
  \<open>TypeError\<close> here. \<open>None\<close> is the lookup giving \<open>undefined\<close>.
\<close>

definition Object_prototype :: "string list" where
  "Object_prototype =
     [''constructor'', ''__defineGetter__'', ''__defineSetter__'', ''hasOwnProperty'',
      ''__lookupGetter__'', ''__lookupSetter__'', ''isPrototypeOf'', ''propertyIsEnumerable'',
      ''toString'', ''valueOf'', ''__proto__'', ''toLocaleString'']"

definition handler_for ::
  "decompress_handlers \<Rightarrow> string \<Rightarrow> (reader_error + (byte list \<Rightarrow> nat \<Rightarrow> byte list)) option" where
  "handler_for handlers compression =
     (case handlers compression of
        Some decompress \<Rightarrow> Some (Inr decompress)
      | None \<Rightarrow>
          if compression = ''constructor'' then Some (Inr (\<lambda>buffer decompressedSize. buffer))
          else if compression \<in> set Object_prototype then Some (Inl TypeError)
          else None)"

text \<open>The field \<open>type\<close> of a record.\<close>

fun record_type :: "mcap_record \<Rightarrow> string" where
  "record_type (ChannelInfo p) = ''ChannelInfo''"
| "record_type (Message p) = ''Message''"
| "record_type (IndexData p) = ''IndexData''"
| "record_type (ChunkInfo p) = ''ChunkInfo''"
| "record_type (Chunk c sz d) = ''Chunk''"
| "record_type (Footer p) = ''Footer''"

text \<open>
  The generator \<open>read()\<close> between two calls of \<open>next()\<close> is at one of its \<open>yield\<close>s (or before
  its first statement, or finished), with the local variables that are live there:
  \<open>G_Start\<close> in the loop of the leading magic, \<open>G_Records\<close> in the loop that parses a
  top-level record (also after the \<open>yield\<close> of a plain record, which continues with that
  loop), \<open>G_ChunkBody\<close> after \<open>yield record\<close> of a Chunk, \<open>G_ChunkLoop buffer chunkOffset\<close>
  in the loop over the records of a chunk, with the increment of \<open>chunkOffset\<close> done,
  \<open>G_TrailingMagic record\<close> in the loop of the magic after the Footer, \<open>G_Finished\<close>
  after a \<open>return\<close> or a \<open>throw\<close>. \<open>read_step\<close> runs the code from one of these
  points to the next: it suspends with the result of \<open>next()\<close> (a \<open>yield\<close>, the \<open>return\<close>
  or an exception) or goes on at another point within the same call.
\<close>

datatype generator_state =
  G_Start
  | G_Records
  | G_ChunkBody string nat "byte list"
  | G_ChunkLoop "byte list" nat
  | G_TrailingMagic mcap_record
  | G_Finished

datatype generator_result =
  Yield "mcap_record option"
  | Return "mcap_record option"
  | Throw reader_error

datatype read_step =
  Suspend generator_result generator_state "byte list"
  | Continue generator_state "byte list"

definition read_step ::
  "magic_parser \<Rightarrow> record_parser \<Rightarrow> bool \<Rightarrow> decompress_handlers \<Rightarrow> generator_state \<Rightarrow> byte list
   \<Rightarrow> read_step" where
  "read_step parseMagic parseRecord includeChunks decompressHandlers g storage =
     (case g of
        G_Start \<Rightarrow>
          (case parseMagic storage 0 of
             Incomplete \<Rightarrow> Suspend (Yield None) G_Start storage
           | Malformed \<Rightarrow> Suspend (Throw ParseFailure) G_Finished storage
           | Parsed magic usedBytes \<Rightarrow> Continue G_Records (drop usedBytes storage))
      | G_Records \<Rightarrow>
          (case parseRecord storage 0 of
             Incomplete \<Rightarrow> Suspend (Yield None) G_Records storage
           | Malformed \<Rightarrow> Suspend (Throw ParseFailure) G_Finished storage
           | Parsed record usedBytes \<Rightarrow>
               (case record of
                  Chunk compression decompressedSize chunkData \<Rightarrow>
                    if includeChunks
                    then Suspend (Yield (Some record))
                           (G_ChunkBody compression decompressedSize chunkData)
                           (drop usedBytes storage)
                    else Continue (G_ChunkBody compression decompressedSize chunkData)
                           (drop usedBytes storage)
                | Footer p \<Rightarrow> Continue (G_TrailingMagic record) (drop usedBytes storage)
                | _ \<Rightarrow> Suspend (Yield (Some record)) G_Records (drop usedBytes storage)))
      | G_ChunkBody compression decompressedSize chunkData \<Rightarrow>
          (if compression \<noteq> []
           then (case handler_for decompressHandlers compression of
                   None \<Rightarrow> Suspend (Throw (UnsupportedCompression compression)) G_Finished storage
                 | Some (Inl e) \<Rightarrow> Suspend (Throw e) G_Finished storage
                 | Some (Inr decompress) \<Rightarrow>
                     Continue (G_ChunkLoop (decompress chunkData decompressedSize) 0) storage)
           else Continue (G_ChunkLoop chunkData 0) storage)
      | G_ChunkLoop buffer chunkOffset \<Rightarrow>
          (case parseRecord buffer chunkOffset of
             Parsed record usedBytes \<Rightarrow>
               (case record of
                  ChannelInfo p \<Rightarrow>
                    Suspend (Yield (Some record)) (G_ChunkLoop buffer (chunkOffset + usedBytes)) storage
                | Message p \<Rightarrow>
                    Suspend (Yield (Some record)) (G_ChunkLoop buffer (chunkOffset + usedBytes)) storage
                | _ \<Rightarrow> Suspend (Throw (NotAllowedInsideChunk (record_type record))) G_Finished storage)
           | Malformed \<Rightarrow> Suspend (Throw ParseFailure) G_Finished storage
           | Incomplete \<Rightarrow>
               if chunkOffset \<noteq> length buffer
               then Suspend (Throw (BytesRemainingInChunk (int (length buffer) - int chunkOffset)))
                      G_Finished storage
               else Continue G_Records storage)
      | G_TrailingMagic record \<Rightarrow>
          (case parseMagic storage 0 of
             Incomplete \<Rightarrow> Suspend (Yield None) (G_TrailingMagic record) storage
           | Malformed \<Rightarrow> Suspend (Throw ParseFailure) G_Finished storage
           | Parsed magic usedBytes \<Rightarrow>
               if length (drop usedBytes storage) \<noteq> 0
               then Suspend (Throw (BytesRemainingAfterFooter (length (drop usedBytes storage))))
                      G_Finished (drop usedBytes storage)
               else Suspend (Return (Some record)) G_Finished (drop usedBytes storage))
      | G_Finished \<Rightarrow> Suspend (Return None) G_Finished storage)"

text \<open>One call of \<open>this.generator.next()\<close>: steps until the generator suspends.\<close>

partial_function (option) generator_next ::
  "magic_parser \<Rightarrow> record_parser \<Rightarrow> bool \<Rightarrow> decompress_handlers \<Rightarrow> generator_state \<Rightarrow> byte list
   \<Rightarrow> (generator_result \<times> generator_state \<times> byte list) option" where
  "generator_next parseMagic parseRecord includeChunks decompressHandlers g storage =
     (case read_step parseMagic parseRecord includeChunks decompressHandlers g storage of
        Suspend res g' storage' \<Rightarrow> Some (res, g', storage')
      | Continue g' storage' \<Rightarrow>
          generator_next parseMagic parseRecord includeChunks decompressHandlers g' storage')"

text \<open>The fields of the class, and its constructor with the two options.\<close>

record mcap_reader =
  storage :: "byte list"
  decompressHandlers :: decompress_handlers
  includeChunks :: bool
  doneReading :: bool
  generator :: generator_state

definition new_reader :: "bool \<Rightarrow> decompress_handlers \<Rightarrow> mcap_reader" where
  "new_reader inc handlers =
     \<lparr>storage = [], decompressHandlers = handlers, includeChunks = inc, doneReading = False,
      generator = G_Start\<rparr>"

text \<open>
  \<open>done()\<close>, \<open>bytesRemaining()\<close>, \<open>append(data)\<close> and \<open>nextRecord()\<close>. An exception of the
  generator leaves \<open>nextRecord\<close> before \<open>doneReading\<close> is written; the generator has
  advanced all the same.
\<close>

definition reader_done :: "mcap_reader \<Rightarrow> bool" where
  "reader_done r = doneReading r"

definition bytesRemaining :: "mcap_reader \<Rightarrow> nat" where
  "bytesRemaining r = length (storage r)"

definition reader_append :: "byte list \<Rightarrow> mcap_reader \<Rightarrow> reader_error + mcap_reader" where
  "reader_append bytes r =
     (if doneReading r then Inl AlreadyDoneReading else Inr (r\<lparr>storage := storage r @ bytes\<rparr>))"

definition nextRecord ::
  "magic_parser \<Rightarrow> record_parser \<Rightarrow> mcap_reader
   \<Rightarrow> ((reader_error + mcap_record option) \<times> mcap_reader) option" where
  "nextRecord parseMagic parseRecord r =
     (if doneReading r then Some (Inr None, r)
      else case generator_next parseMagic parseRecord (includeChunks r) (decompressHandlers r)
                  (generator r) (storage r) of
             None \<Rightarrow> None
           | Some (res, g, st) \<Rightarrow>
               (let r1 = r\<lparr>storage := st, generator := g\<rparr>
                in case res of
                     Yield v \<Rightarrow> Some (Inr v, r1)
                   | Return v \<Rightarrow> Some (Inr v, r1\<lparr>doneReading := True\<rparr>)
                   | Throw e \<Rightarrow> Some (Inl e, r1)))"


text \<open>
  The caller of the reader: \<open>drain\<close> calls \<open>nextRecord()\<close> until it returns \<open>undefined\<close> or
  raises and collects the records, \<open>feed\<close> appends the fragments in order and drains the
  reader after each one. The result has the records, the error raised if any, and the
  reader.
\<close>

partial_function (option) drain ::
  "magic_parser \<Rightarrow> record_parser \<Rightarrow> mcap_reader \<Rightarrow> mcap_record list
   \<Rightarrow> (mcap_record list \<times> reader_error option \<times> mcap_reader) option" where
  "drain parseMagic parseRecord r acc =
     (case nextRecord parseMagic parseRecord r of
        None \<Rightarrow> None
      | Some (Inl e, r') \<Rightarrow> Some (acc, Some e, r')
      | Some (Inr None, r') \<Rightarrow> Some (acc, None, r')
      | Some (Inr (Some record), r') \<Rightarrow> drain parseMagic parseRecord r' (acc @ [record]))"

declare generator_next.simps [code] drain.simps [code]

fun feed ::
  "magic_parser \<Rightarrow> record_parser \<Rightarrow> byte list list \<Rightarrow> mcap_reader \<Rightarrow> mcap_record list
   \<Rightarrow> (mcap_record list \<times> reader_error option \<times> mcap_reader) option" where
  "feed parseMagic parseRecord [] r acc = Some (acc, None, r)"
| "feed parseMagic parseRecord (fragment # fragments) r acc =
     (case reader_append fragment r of
        Inl e \<Rightarrow> Some (acc, Some e, r)
      | Inr r1 \<Rightarrow>
          (case drain parseMagic parseRecord r1 acc of
             None \<Rightarrow> None
           | Some (acc', Some e, r2) \<Rightarrow> Some (acc', Some e, r2)
           | Some (acc', None, r2) \<Rightarrow> feed parseMagic parseRecord fragments r2 acc'))"

subsection \<open>A byte format for the examples\<close>

text \<open>
  Modelled from the spec: the byte layout is in \<open>constants.ts\<close> and \<open>parse.ts\<close>, which are
  not under \<open>src/\<close>. The format has a "fixed magic header and trailing magic/footer;
  self-describing record kinds each with a type tag and length-prefixed payload; chunks carry
  a compression-name string and decompressed-size hint". The format below is one of that
  shape: the magic of eight bytes, a record as one byte of tag, the length of the payload in
  four bytes (little endian) and the payload; the payload of a Chunk is the decompressed size
  in eight bytes, the length of the compression name in four, the name and the data. The
  values of the tags and the widths are chosen here. Only the closed examples use this format;
  the general statements take the parsers as parameters.
\<close>

definition MCAP_MAGIC :: "byte list" where
  "MCAP_MAGIC = [0x89, 0x4D, 0x43, 0x41, 0x50, 0x30, 0x0D, 0x0A]"

definition mcap_parseMagic :: magic_parser where
  "mcap_parseMagic view startOffset =
     (if length view < startOffset + length MCAP_MAGIC then Incomplete
      else if take (length MCAP_MAGIC) (drop startOffset view) = MCAP_MAGIC
           then Parsed () (length MCAP_MAGIC)
           else Malformed)"

primrec le_bytes :: "nat \<Rightarrow> nat \<Rightarrow> byte list" where
  "le_bytes 0 n = []"
| "le_bytes (Suc k) n = of_nat (n mod 256) # le_bytes k (n div 256)"

primrec le_nat :: "byte list \<Rightarrow> nat" where
  "le_nat [] = 0"
| "le_nat (b # bs) = unat b + 256 * le_nat bs"

definition byte_of_char :: "char \<Rightarrow> byte" where
  "byte_of_char c = of_nat (of_char c)"

definition char_of_byte :: "byte \<Rightarrow> char" where
  "char_of_byte b = char_of (unat b)"

fun record_tag :: "mcap_record \<Rightarrow> byte" where
  "record_tag (ChannelInfo p) = 1"
| "record_tag (Message p) = 2"
| "record_tag (Chunk c sz d) = 3"
| "record_tag (IndexData p) = 4"
| "record_tag (ChunkInfo p) = 5"
| "record_tag (Footer p) = 6"

fun record_payload :: "mcap_record \<Rightarrow> byte list" where
  "record_payload (ChannelInfo p) = p"
| "record_payload (Message p) = p"
| "record_payload (Chunk c sz d) = le_bytes 8 sz @ le_bytes 4 (length c) @ map byte_of_char c @ d"
| "record_payload (IndexData p) = p"
| "record_payload (ChunkInfo p) = p"
| "record_payload (Footer p) = p"

definition encodeRecord :: "mcap_record \<Rightarrow> byte list" where
  "encodeRecord r = record_tag r # le_bytes 4 (length (record_payload r)) @ record_payload r"

definition decodePayload :: "byte \<Rightarrow> byte list \<Rightarrow> mcap_record option" where
  "decodePayload tag p =
     (if tag = 1 then Some (ChannelInfo p)
      else if tag = 2 then Some (Message p)
      else if tag = 3 then
        (if length p < 12 then None
         else let n = le_nat (take 4 (drop 8 p))
              in if length p < 12 + n then None
                 else Some (Chunk (map char_of_byte (take n (drop 12 p))) (le_nat (take 8 p))
                              (drop (12 + n) p)))
      else if tag = 4 then Some (IndexData p)
      else if tag = 5 then Some (ChunkInfo p)
      else if tag = 6 then Some (Footer p)
      else None)"

definition mcap_parseRecord :: record_parser where
  "mcap_parseRecord view startOffset =
     (let b = drop startOffset view
      in if length b < 5 then Incomplete
         else let n = le_nat (take 4 (drop 1 b))
              in if length b < 5 + n then Incomplete
                 else case decodePayload (hd b) (take n (drop 5 b)) of
                        None \<Rightarrow> Malformed
                      | Some r \<Rightarrow> Parsed r (5 + n))"

text \<open>The records that this format can encode: the lengths fit their fields.\<close>

definition encodable :: "mcap_record \<Rightarrow> bool" where
  "encodable r =
     (length (record_payload r) < 2 ^ 32 \<and>
      (case r of Chunk c sz d \<Rightarrow> sz < 2 ^ 64 | _ \<Rightarrow> True))"

subsection \<open>Encoded streams\<close>

text \<open>
  The buffer that \<open>read()\<close> parses the records of a chunk from: the data, decompressed by
  the handler that the lookup of the compression finds when the compression is not the
  empty string.
\<close>

definition chunk_buffer :: "decompress_handlers \<Rightarrow> string \<Rightarrow> nat \<Rightarrow> byte list \<Rightarrow> byte list option" where
  "chunk_buffer handlers c sz d =
     (if c \<noteq> []
      then (case handler_for handlers c of
              Some (Inr decompress) \<Rightarrow> Some (decompress d sz)
            | _ \<Rightarrow> None)
      else Some d)"

text \<open>The kinds that the inner \<open>switch\<close> of \<open>read()\<close> yields; it throws for the other four.\<close>

fun nestable :: "mcap_record \<Rightarrow> bool" where
  "nestable (ChannelInfo p) = True"
| "nestable (Message p) = True"
| "nestable r = False"

fun is_footer :: "mcap_record \<Rightarrow> bool" where
  "is_footer (Footer p) = True"
| "is_footer r = False"

fun is_chunk :: "mcap_record \<Rightarrow> bool" where
  "is_chunk (Chunk c sz d) = True"
| "is_chunk r = False"

text \<open>
  A top-level record before the Footer comes with the records nested in it (none unless it is
  a Chunk). \<open>wf_item\<close>: the record and the nested ones can be encoded, the buffer of a Chunk
  is the concatenation of the encodings of its nested records, which are ChannelInfo or
  Message records. \<open>produced\<close> is what the reader returns for the item. The stream is the
  magic, the encodings of the top-level records, the encoding of the Footer and the magic.
\<close>

type_synonym item = "mcap_record \<times> mcap_record list"

definition wf_item ::
  "(mcap_record \<Rightarrow> byte list) \<Rightarrow> (mcap_record \<Rightarrow> bool) \<Rightarrow> decompress_handlers \<Rightarrow> item \<Rightarrow> bool" where
  "wf_item enc ok handlers it =
     (ok (fst it) \<and> list_all ok (snd it) \<and>
      (case fst it of
         Chunk c sz d \<Rightarrow>
           chunk_buffer handlers c sz d = Some (concat (map enc (snd it))) \<and>
           list_all nestable (snd it)
       | Footer p \<Rightarrow> False
       | _ \<Rightarrow> snd it = []))"

definition produced :: "bool \<Rightarrow> item \<Rightarrow> mcap_record list" where
  "produced inc it =
     (if is_chunk (fst it) then (if inc then [fst it] else []) @ snd it else [fst it])"

definition encode_stream ::
  "byte list \<Rightarrow> (mcap_record \<Rightarrow> byte list) \<Rightarrow> item list \<Rightarrow> mcap_record \<Rightarrow> byte list" where
  "encode_stream magic enc items footer =
     magic @ concat (map (\<lambda>it. enc (fst it)) items) @ enc footer @ magic"

text \<open>
  What the statements about streams ask of the parsers, for an encoder \<open>enc\<close> of the
  records that satisfy \<open>ok\<close>: the magic is recognised at offset 0 whatever follows it, an
  encoded record is parsed back at the offset where it starts with its length as
  \<open>usedBytes\<close>, a strict prefix of the magic or of an encoded record is incomplete, and so
  is the end of a buffer.
\<close>

definition codec ::
  "magic_parser \<Rightarrow> record_parser \<Rightarrow> byte list \<Rightarrow> (mcap_record \<Rightarrow> byte list) \<Rightarrow> (mcap_record \<Rightarrow> bool)
   \<Rightarrow> bool" where
  "codec pm pr magic enc ok =
     (magic \<noteq> [] \<and>
      (\<forall>rest. pm (magic @ rest) 0 = Parsed () (length magic)) \<and>
      (\<forall>p. strict_prefix p magic \<longrightarrow> pm p 0 = Incomplete) \<and>
      (\<forall>r. ok r \<longrightarrow> enc r \<noteq> []) \<and>
      (\<forall>r pre rest. ok r \<longrightarrow> pr (pre @ enc r @ rest) (length pre) = Parsed r (length (enc r))) \<and>
      (\<forall>r p. ok r \<longrightarrow> strict_prefix p (enc r) \<longrightarrow> pr p 0 = Incomplete) \<and>
      (\<forall>buf. pr buf (length buf) = Incomplete))"

text \<open>
  A reader that is not done, by its generator state and its storage. The tokens of a stream
  are the units at which the generator suspends: the leading magic, the top-level records,
  the Footer and the trailing magic; \<open>reader_for\<close> is the reader that waits for the first
  of the tokens left.
\<close>

definition reader_in :: "bool \<Rightarrow> decompress_handlers \<Rightarrow> generator_state \<Rightarrow> byte list \<Rightarrow> mcap_reader" where
  "reader_in inc handlers g st =
     \<lparr>storage = st, decompressHandlers = handlers, includeChunks = inc, doneReading = False,
      generator = g\<rparr>"

datatype token = TMagic | TItem item | TFooter mcap_record | TTrail mcap_record

fun tokens_of :: "item list \<Rightarrow> mcap_record \<Rightarrow> token list" where
  "tokens_of items footer = TMagic # map TItem items @ [TFooter footer, TTrail footer]"

fun tok_enc :: "byte list \<Rightarrow> (mcap_record \<Rightarrow> byte list) \<Rightarrow> token \<Rightarrow> byte list" where
  "tok_enc magic enc TMagic = magic"
| "tok_enc magic enc (TItem it) = enc (fst it)"
| "tok_enc magic enc (TFooter f) = enc f"
| "tok_enc magic enc (TTrail f) = magic"

fun tok_out :: "bool \<Rightarrow> token \<Rightarrow> mcap_record list" where
  "tok_out inc TMagic = []"
| "tok_out inc (TItem it) = produced inc it"
| "tok_out inc (TFooter f) = []"
| "tok_out inc (TTrail f) = [f]"

fun reader_for :: "bool \<Rightarrow> decompress_handlers \<Rightarrow> token list \<Rightarrow> byte list \<Rightarrow> mcap_reader" where
  "reader_for inc handlers [] st = (reader_in inc handlers G_Finished st)\<lparr>doneReading := True\<rparr>"
| "reader_for inc handlers (TMagic # ts) st = reader_in inc handlers G_Start st"
| "reader_for inc handlers (TItem it # ts) st = reader_in inc handlers G_Records st"
| "reader_for inc handlers (TFooter f # ts) st = reader_in inc handlers G_Records st"
| "reader_for inc handlers (TTrail f # ts) st = reader_in inc handlers (G_TrailingMagic f) st"

fun at_records :: "token list \<Rightarrow> bool" where
  "at_records (TItem it # ts) = True"
| "at_records (TFooter f # ts) = True"
| "at_records ts = False"

fun wf_tokens ::
  "(mcap_record \<Rightarrow> byte list) \<Rightarrow> (mcap_record \<Rightarrow> bool) \<Rightarrow> decompress_handlers \<Rightarrow> token list \<Rightarrow> bool" where
  "wf_tokens enc ok handlers [] = True"
| "wf_tokens enc ok handlers (TMagic # ts) = (at_records ts \<and> wf_tokens enc ok handlers ts)"
| "wf_tokens enc ok handlers (TItem it # ts) =
     (wf_item enc ok handlers it \<and> at_records ts \<and> wf_tokens enc ok handlers ts)"
| "wf_tokens enc ok handlers (TFooter f # ts) = (ok f \<and> is_footer f \<and> ts = [TTrail f])"
| "wf_tokens enc ok handlers (TTrail f # ts) = (ts = [])"

subsection \<open>Points that a call reaches\<close>

text \<open>
  \<open>resumes_at \<dots> g st g' st'\<close>: a call of \<open>next()\<close> that starts at the point \<open>g\<close> with
  the storage \<open>st\<close> reaches the point \<open>g'\<close> with the storage \<open>st'\<close> without suspending.
\<close>

inductive resumes_at ::
  "magic_parser \<Rightarrow> record_parser \<Rightarrow> bool \<Rightarrow> decompress_handlers \<Rightarrow> generator_state \<Rightarrow> byte list
   \<Rightarrow> generator_state \<Rightarrow> byte list \<Rightarrow> bool"
  for parseMagic parseRecord inc handlers where
  here: "resumes_at parseMagic parseRecord inc handlers g st g st"
| later:
    "read_step parseMagic parseRecord inc handlers g st = Continue g' st' \<Longrightarrow>
     resumes_at parseMagic parseRecord inc handlers g' st' g'' st'' \<Longrightarrow>
     resumes_at parseMagic parseRecord inc handlers g st g'' st''"

text \<open>
  A sequence of calls of \<open>append\<close> and \<open>nextRecord\<close>, by a caller that catches the
  exceptions; the result has the records returned. \<open>fatal\<close>: the next call of \<open>nextRecord\<close>
  raises, and whatever is called afterwards no record is returned.
\<close>

datatype reader_call = Append "byte list" | NextRecord

fun run_calls ::
  "magic_parser \<Rightarrow> record_parser \<Rightarrow> reader_call list \<Rightarrow> mcap_reader
   \<Rightarrow> (mcap_record list \<times> mcap_reader) option" where
  "run_calls parseMagic parseRecord [] r = Some ([], r)"
| "run_calls parseMagic parseRecord (Append bytes # calls) r =
     (case reader_append bytes r of
        Inl e \<Rightarrow> run_calls parseMagic parseRecord calls r
      | Inr r' \<Rightarrow> run_calls parseMagic parseRecord calls r')"
| "run_calls parseMagic parseRecord (NextRecord # calls) r =
     (case nextRecord parseMagic parseRecord r of
        None \<Rightarrow> None
      | Some (res, r') \<Rightarrow>
          (case run_calls parseMagic parseRecord calls r' of
             None \<Rightarrow> None
           | Some (recs, r'') \<Rightarrow>
               Some ((case res of Inr (Some record) \<Rightarrow> [record] | _ \<Rightarrow> []) @ recs, r'')))"

definition fatal :: "magic_parser \<Rightarrow> record_parser \<Rightarrow> mcap_reader \<Rightarrow> bool" where
  "fatal parseMagic parseRecord r =
     (\<exists>e r'. nextRecord parseMagic parseRecord r = Some (Inl e, r') \<and>
        (\<forall>calls. \<exists>r''. run_calls parseMagic parseRecord calls r' = Some ([], r'')))"

subsection \<open>Example streams\<close>

text \<open>
  A ChannelInfo and a Message record followed by a chunk of two records, and the stream of
  the spec's example: magic, ChannelInfo, Message, Footer, magic.
\<close>

definition example_items :: "item list" where
  "example_items =
     [(ChannelInfo [1, 2], []), (Message [3], []),
      (Chunk [] 0 (encodeRecord (Message [4]) @ encodeRecord (ChannelInfo [5])),
       [Message [4], ChannelInfo [5]])]"

definition example_footer :: mcap_record where
  "example_footer = Footer [9, 9]"

text \<open>
  The default \<open>decompressHandlers = {}\<close>: no handler is registered. What the lookup
  finds in it is \<open>handler_for no_handlers\<close>.
\<close>

definition no_handlers :: decompress_handlers where
  "no_handlers = (\<lambda>compression. None)"

definition simple_stream :: "byte list" where
  "simple_stream =
     MCAP_MAGIC @ encodeRecord (ChannelInfo [1, 2]) @ encodeRecord (Message [3]) @
     encodeRecord (Footer [9, 9]) @ MCAP_MAGIC"

section \<open>Properties of the RandomAccessPlayer\<close>

subsection \<open>Time and the invariant of a run\<close>

lemma compare_refl [simp]: "compare t t = 0"
  by (simp add: compare_def)

lemma compare_eq_0: "compare a b = 0 \<Longrightarrow> a = b"
  by (cases a, cases b) (auto simp: compare_def Let_def split: if_splits)














lemma setError_returns: "\<exists>s'. setError m s = Inr s'"
  by (simp add: setError_def emitState_def emitState_body_def Let_def)





lemmas player_defs =
  new_player_def setListener_def emitState_def emitState_body_def lastEnd_def deliver_def
  listener_resolved_def initialize_resolved_def initialize_rejected_def setError_def
  reportInitialized_def seekPlayback_def seekPlaybackInternal_def backfill_pass_def
  backfill_complete_def setNextReadStartTime_def getSanitizedTopics_def
  getMessages_complete_def tick_begin_def tick_complete_def tick_started_def
  tick_finished_def read_finished_def progressCallback_def updateReconnecting_def
  startPlayback_def pausePlayback_def setPlaybackSpeed_def setSubscriptions_def
  setPublishers_def setParameter_def publish_def close_def tick_rejected_def
  backfill_rejected_def state_of_def add_def fixTime_def
  subtractTimes_def clampTime_def compare_def areEqual_def SEEK_BACK_NANOSECONDS_def Let_def

lemmas example_defs =
  example_message_def example_initialization_def example_start_def example_run_def

lemmas example_defs2 =
  example_defs seek_during_tick_def pause_during_tick_def seek_back_while_playing_def

text \<open>
  What the emitting function reports as \<open>currentTime\<close>: the read cursor less one
  nanosecond (the cursor itself when it is zero), clamped to the player's range.
\<close>

lemma emitState_body_currentTime:
  assumes "emitState_body s = Inr s'" "p_listener s" "\<not> p_hasError s" "\<not> p_initializing s"
  shows "\<exists>t ps ad. lastEnd (p_nextReadStartTime s) = Inr t \<and> emitted s' = emitted s @ [ps] \<and>
           activeData ps = Some ad \<and> currentTime ad = clampTime t (p_start s) (p_end s)"
  using assms
  by (auto simp: emitState_body_def deliver_def Let_def split: sum.splits option.splits if_splits
      dest: compare_eq_0)



subsection \<open>The tick and the seek generation\<close>

lemma token_emitState_body: "p_lastSeekStartTime (state_of (emitState_body s)) = p_lastSeekStartTime s"
  by (auto simp: emitState_body_def deliver_def state_of_def Let_def split: sum.splits option.splits)

lemma token_emitState: "p_lastSeekStartTime (state_of (emitState s)) = p_lastSeekStartTime s"
  using token_emitState_body[of s] by (simp add: emitState_def) (simp add: state_of_def)

lemma token_setError: "p_lastSeekStartTime (state_of (setError m s)) = p_lastSeekStartTime s"
  by (simp add: setError_def Let_def token_emitState)

lemma token_getMessages: "p_lastSeekStartTime (snd (getMessages_complete tps res s)) = p_lastSeekStartTime s"
  by (auto simp: getMessages_complete_def Let_def split: option.splits prod.splits)

lemma token_backfill_pass: "p_lastSeekStartTime (backfill_pass d now s) = p_lastSeekStartTime s"
  by (auto simp: backfill_pass_def Let_def split: sum.splits)

lemma token_seekPlayback: "p_lastSeekStartTime (state_of (seekPlayback t d now s)) = p_lastSeekStartTime s"
  by (simp add: seekPlayback_def seekPlaybackInternal_def setNextReadStartTime_def state_of_def token_backfill_pass)

lemma token_tick_complete: "p_lastSeekStartTime (state_of (tick_complete r msgs s)) = p_lastSeekStartTime s"
  unfolding tick_complete_def Let_def
  by (auto split: sum.splits simp: token_emitState) (simp_all add: state_of_def)

lemma token_tick_finished: "p_lastSeekStartTime (state_of (tick_finished res s)) = p_lastSeekStartTime s"
proof (cases "p_tick s")
  case None
  then show ?thesis by (simp add: tick_finished_def state_of_def)
next
  case (Some r)
  obtain msgs s1 where g: "getMessages_complete (tr_parsedTopics r) res (s\<lparr>p_tick := None\<rparr>) = (msgs, s1)"
    by (cases "getMessages_complete (tr_parsedTopics r) res (s\<lparr>p_tick := None\<rparr>)")
  have s1: "p_lastSeekStartTime s1 = p_lastSeekStartTime s"
    using token_getMessages[of "tr_parsedTopics r" res "s\<lparr>p_tick := None\<rparr>"] g by simp
  show ?thesis
  proof (cases "tick_complete r msgs s1")
    case (Inl a)
    obtain e s2 where a: "a = (e, s2)" by (cases a)
    have "p_lastSeekStartTime s2 = p_lastSeekStartTime s"
      using token_tick_complete[of r msgs s1] Inl a s1 by (simp add: state_of_def)
    then show ?thesis using Some g Inl a by (simp add: tick_finished_def token_setError)
  next
    case (Inr s2)
    have "p_lastSeekStartTime s2 = p_lastSeekStartTime s"
      using token_tick_complete[of r msgs s1] Inr s1 by (simp add: state_of_def)
    then show ?thesis using Some g Inr by (simp add: tick_finished_def state_of_def)
  qed
qed

lemma token_tick_started: "p_lastSeekStartTime (state_of (tick_started rt s)) = p_lastSeekStartTime s"
  by (auto simp: tick_started_def token_setError split: sum.splits) (simp_all add: state_of_def)

lemma token_backfill_complete: "p_lastSeekStartTime (backfill_complete res now s) = p_lastSeekStartTime s"
proof (cases "p_backfill s")
  case None
  then show ?thesis by (simp add: backfill_complete_def)
next
  case (Some b)
  obtain msgs s1 where g: "getMessages_complete (bf_parsedTopics b) res (s\<lparr>p_backfill := None\<rparr>) = (msgs, s1)"
    by (cases "getMessages_complete (bf_parsedTopics b) res (s\<lparr>p_backfill := None\<rparr>)")
  have s1: "p_lastSeekStartTime s1 = p_lastSeekStartTime s"
    using token_getMessages[of "bf_parsedTopics b" res "s\<lparr>p_backfill := None\<rparr>"] g by simp
  have e: "p_lastSeekStartTime (state_of (emitState (s1\<lparr>p_nextReadStartTime := t,
                                 p_nextReadStartTimeRef := Suc (p_nextReadStartTimeRef s1),
                                 p_messages := msgs,
                                 p_lastSeekEmitTime := now\<rparr>))) = p_lastSeekStartTime s" for t
    using s1 by (simp add: token_emitState)
  show ?thesis using Some g s1 e
    by (auto simp: backfill_complete_def token_backfill_pass state_of_def split: sum.splits)
qed

lemma seekPlayback_returns: "\<exists>s'. seekPlayback t d now s = Inr s'"
  by (simp add: seekPlayback_def)

lemma token_initialize_resolved:
  "p_lastSeekStartTime (state_of (initialize_resolved r t now s)) = p_lastSeekStartTime s"
proof -
  let ?s1 = "reportInitialized
                   (s\<lparr>p_start := in_start r,
                      p_nextReadStartTime := t,
                      p_nextReadStartTimeRef := Suc (p_nextReadStartTimeRef s),
                      p_end := in_end r,
                      p_providerTopics := in_topics r,
                      p_initializing := False,
                      p_currentTime := Some t\<rparr>)"
  have a: "p_lastSeekStartTime (state_of (seekPlayback t None now ?s1)) = p_lastSeekStartTime s"
    by (simp add: token_seekPlayback reportInitialized_def)
  obtain s4 where f: "seekPlayback t None now ?s1 = Inr s4" using seekPlayback_returns by blast
  obtain s2 where d: "setError ''Incorrect message format'' s = Inr s2" using setError_returns by blast
  obtain s3 where e: "setError ''Missing message definitions'' s = Inr s3" using setError_returns by blast
  show ?thesis
    using a f d e token_setError[of "''Incorrect message format''" s]
      token_setError[of "''Missing message definitions''" s]
    by (simp add: initialize_resolved_def state_of_def)
qed

lemma token_step: "p_lastSeekStartTime (state_of (step e s)) = p_lastSeekStartTime s"
proof (cases e)
  case StartPlayback
  then show ?thesis
    using token_emitState[of "s\<lparr>p_isPlaying := True\<rparr>"]
    by (auto simp: startPlayback_def state_of_def split: sum.splits)
next
  case PausePlayback
  then show ?thesis
    using token_emitState[of "s\<lparr>p_isPlaying := False\<rparr>"]
    by (auto simp: pausePlayback_def state_of_def)
next
  case ProgressCallback
  then show ?thesis using token_emitState[of s]
    by (auto simp: progressCallback_def state_of_def)
next
  case ListenerResolved
  then show ?thesis
    using token_emitState_body[of "s\<lparr>emitRunning := False, emitCalledWhileRunning := False\<rparr>"]
    by (auto simp: listener_resolved_def Let_def state_of_def)
next
  case (TickRejected msg)
  then show ?thesis
    using token_setError[of msg "s\<lparr>p_tick := None, p_readingLocked := False\<rparr>"]
    by (auto simp: tick_rejected_def split: option.splits) (simp_all add: state_of_def)
next
  case BackfillRejected
  then show ?thesis
    by (auto simp: backfill_rejected_def state_of_def split: option.splits)
qed (simp_all add: setListener_def token_emitState token_initialize_resolved initialize_rejected_def
      token_setError updateReconnecting_def setPlaybackSpeed_def token_seekPlayback
      token_backfill_complete token_tick_started token_tick_finished,
     simp_all add: state_of_def setSubscriptions_def setPublishers_def setParameter_def publish_def
      close_def Let_def read_finished_def token_backfill_complete)

lemma token_run: "p_lastSeekStartTime (run evs s) = p_lastSeekStartTime s"
  by (induction evs arbitrary: s) (simp_all add: token_step)

text \<open>
  C1 (the code does otherwise). The claim: a seek between the start and the completion of
  a tick's read is detected by comparing the seek generation captured before the read
  with the current one; the read's messages are discarded and the cursor is not advanced
  past the seek target. In the code nothing ever writes \<open>_lastSeekStartTime\<close>
  (\<open>token_run\<close>), so the comparison in \<open>_tick\<close> never fails. In the run
  \<open>seek_during_tick\<close> the player seeks to 0 s while the tick reads 1 ns to 20000001 ns:
  after the seek the cursor is at 0 s; when the read completes the cursor is set to
  20000002 ns, past the seek target, and the message read is delivered to the listener.
\<close>

theorem seek_during_tick_is_not_detected:
  "p_nextReadStartTime (run (butlast seek_during_tick) (new_player 0)) = \<lparr>sec = 0, nsec = 0\<rparr> \<and>
   p_nextReadStartTime (run seek_during_tick (new_player 0)) = \<lparr>sec = 0, nsec = 20000002\<rparr> \<and>
   map_option messages (activeData (last (emitted (run seek_during_tick (new_player 0))))) =
     Some [\<lparr>topic = ''/a'', receiveTime = \<lparr>sec = 0, nsec = 5000000\<rparr>, message = [1, 2, 3],
            sizeInBytes = None\<rparr>]"
  by (simp add: example_defs2 player_defs)


text \<open>
  C2, as the claim states it, fails: in the run \<open>pause_during_tick\<close> the player is paused
  while a tick reads 1 ns to 20000001 ns; when the read completes the player is not
  playing, and the cursor moves from 1 ns to 20000002 ns.
\<close>

theorem pause_during_tick_advances_cursor:
  "\<not> p_isPlaying (run (butlast pause_during_tick) (new_player 0)) \<and>
   p_nextReadStartTime (run (butlast pause_during_tick) (new_player 0)) = \<lparr>sec = 0, nsec = 1\<rparr> \<and>
   p_nextReadStartTime (run pause_during_tick (new_player 0)) = \<lparr>sec = 0, nsec = 20000002\<rparr>"
  by (simp add: example_defs2 player_defs)

text \<open>
  C2, amended. If the player is not playing when a tick's read completes, the messages
  read are discarded: the queue \<open>_messages\<close> and what the listener has been given stay as
  they are. The read cursor, however, is advanced to one nanosecond past the end of the
  read, unless \<open>_lastSeekStartTime\<close> differs from the value captured before the read,
  in which case the cursor stays.
\<close>

theorem tick_complete_when_not_playing:
  assumes "\<not> p_isPlaying s" and "tick_complete r msgs s = Inr s'"
  shows "p_messages s' = p_messages s \<and> emitted s' = emitted s \<and>
         (if p_lastSeekStartTime s \<noteq> tr_seekTime r
          then p_nextReadStartTime s' = p_nextReadStartTime s
          else add (tr_end r) \<lparr>sec = 0, nsec = 1\<rparr> = Inr (p_nextReadStartTime s'))"
  using assms
  by (auto simp: tick_complete_def Let_def split: if_splits sum.splits)

text \<open>The amended C2 in the run \<open>pause_during_tick\<close>, at the completion of the read.\<close>

theorem tick_complete_when_not_playing_witness:
  "\<not> p_isPlaying (run (butlast pause_during_tick) (new_player 0)) \<and>
   p_tick (run (butlast pause_during_tick) (new_player 0)) =
     Some \<lparr>tr_seekTime = 0, tr_start = \<lparr>sec = 0, nsec = 1\<rparr>, tr_end = \<lparr>sec = 0, nsec = 20000001\<rparr>,
           tr_parsedTopics = [''/a'']\<rparr> \<and>
   (case tick_complete
           \<lparr>tr_seekTime = 0, tr_start = \<lparr>sec = 0, nsec = 1\<rparr>, tr_end = \<lparr>sec = 0, nsec = 20000001\<rparr>,
            tr_parsedTopics = [''/a'']\<rparr>
           [example_message] (run (butlast pause_during_tick) (new_player 0)) of
      Inl e \<Rightarrow> False
    | Inr s' \<Rightarrow>
        p_messages s' = [] \<and>
        emitted s' = emitted (run (butlast pause_during_tick) (new_player 0)) \<and>
        p_nextReadStartTime s' = \<lparr>sec = 0, nsec = 20000002\<rparr>)"
proof -
  define s where "s = run (butlast pause_during_tick) (new_player 0)"
  define r where "r = \<lparr>tr_seekTime = 0, tr_start = \<lparr>sec = 0, nsec = 1\<rparr>,
                         tr_end = \<lparr>sec = 0, nsec = 20000001\<rparr>, tr_parsedTopics = [''/a'']\<rparr>"
  have np: "\<not> p_isPlaying s" and t: "p_tick s = Some r" and m: "p_messages s = []"
    and k: "p_lastSeekStartTime s = tr_seekTime r"
    unfolding s_def r_def by (simp_all add: example_defs2 player_defs)
  obtain s' where c: "tick_complete r [example_message] s = Inr s'"
    using np k by (simp add: tick_complete_def r_def add_def fixTime_def Let_def)
  have a: "add (tr_end r) \<lparr>sec = 0, nsec = 1\<rparr> = Inr \<lparr>sec = 0, nsec = 20000002\<rparr>"
    by (simp add: r_def add_def fixTime_def)
  from tick_complete_when_not_playing [OF np c] k a m
  have "p_messages s' = [] \<and> emitted s' = emitted s \<and> p_nextReadStartTime s' = \<lparr>sec = 0, nsec = 20000002\<rparr>"
    by simp
  then show ?thesis using np t c unfolding s_def r_def by simp
qed

subsection \<open>Raising operations and failures\<close>

























lemma queued_error_is_delivered:
  "p_hasError s \<Longrightarrow> p_listener s \<Longrightarrow> emitCalledWhileRunning s \<Longrightarrow>
   listener_resolved s =
     Inr (deliver \<lparr>presence = ERROR, capabilities = [],
                   problems = Some (map snd (p_problems s)), activeData = None\<rparr>
            (s\<lparr>emitRunning := False, emitCalledWhileRunning := False\<rparr>))"
  by (simp add: listener_resolved_def emitState_body_def Let_def)





subsection \<open>Closing\<close>

text \<open>
  C6, as the claim states it, fails: closing an initialised RandomAccessPlayer twice calls
  \<open>_provider.close()\<close> twice and \<open>_metricsCollector.close()\<close> twice.
\<close>

theorem close_twice_releases_twice:
  "providerCloseCalls (run (example_start @ [Close]) (new_player 0)) = 1 \<and>
   providerCloseCalls (run (example_start @ [Close, Close]) (new_player 0)) = 2 \<and>
   metricsCloseCalls (run (example_start @ [Close, Close]) (new_player 0)) = 2"
  by (simp add: example_defs player_defs)

text \<open>
  C6, amended. A second \<open>close()\<close> raises nothing and leaves every field of the player
  as the first left it, but releases again: the RandomAccessPlayer calls
  \<open>_metricsCollector.close()\<close> again, and \<open>_provider.close()\<close> again unless it is
  initializing or has an error; the RosbridgePlayer calls \<open>_metricsCollector.close()\<close>
  again, and \<open>_rosClient.close()\<close> again while \<open>_rosClient\<close> is set.
\<close>

theorem second_close:
  "(\<exists>s1 s2. close s = Inr s1 \<and> close s1 = Inr s2 \<and>
      s2 = s1\<lparr>providerCloseCalls :=
                 providerCloseCalls s1 + (if p_initializing s \<or> p_hasError s then 0 else 1),
               metricsCloseCalls := Suc (metricsCloseCalls s1)\<rparr>) \<and>
   (\<exists>r1 r2. rb_close r = Inr r1 \<and> rb_close r1 = Inr r2 \<and>
      r2 = r1\<lparr>rosClientCloseCalls := rosClientCloseCalls r1 + (if rb_rosClient r then 1 else 0),
               rb_metricsCloseCalls := Suc (rb_metricsCloseCalls r1)\<rparr>)"
  by (simp add: close_def rb_close_def Let_def)

subsection \<open>The shape of message events\<close>

lemma filterMessages_sizeInBytes:
  "m \<in> set (fst (filterMessages pts tps ms probs)) \<Longrightarrow> sizeInBytes m = None"
  by (induction pts tps ms probs rule: filterMessages.induct)
    (auto simp: Let_def split: if_splits option.splits prod.splits)

text \<open>
  C8 (the code does otherwise). The claim: every message event delivered to the listener
  has \<open>sizeInBytes\<close>, for the RandomAccessPlayer equal to the size of the provider's
  message. \<open>filterMessages\<close> builds each event from \<open>topic\<close>, \<open>receiveTime\<close> and
  \<open>message\<close> only (\<open>filterMessages_sizeInBytes\<close>): in the run \<open>example_run\<close> the
  provider's message has size 3 and the event delivered has no \<open>sizeInBytes\<close>. The
  handler of the RosbridgePlayer delivers its event with the size of the buffer.
\<close>

theorem randomAccess_drops_sizeInBytes:
  "sizeInBytes example_message = Some 3 \<and>
   map_option (map sizeInBytes \<circ> messages)
     (activeData (last (emitted (run example_run (new_player 0))))) = Some [None] \<and>
   map_option (map sizeInBytes \<circ> messages)
     (activeData (last (rb_emitted
        (rb_onMessage ''/a'' [1, 2, 3] (Some 3) (Some [1, 2, 3]) None \<lparr>sec = 101, nsec = 0\<rparr>
           example_rosbridge)))) = Some [Some 3]"
  by (simp add: example_defs player_defs example_rosbridge_def rb_onMessage_def rb_emitState_def
      rb_emitState_body_def rb_deliver_def rb_getCurrentTime_def)

subsection \<open>Runs without a seek\<close>

lemma compare_le_nano:
  "isTime a \<Longrightarrow> isTime b \<Longrightarrow> (compare a b \<le> 0) = (toNanoSec a \<le> toNanoSec b)"
  by (auto simp: compare_def isTime_def toNanoSec_def Let_def) 

lemma compare_gt_nano:
  "isTime a \<Longrightarrow> isTime b \<Longrightarrow> (compare a b > 0) = (toNanoSec a > toNanoSec b)"
  by (auto simp: compare_def isTime_def toNanoSec_def Let_def) 

lemma compare_lt_nano:
  "isTime a \<Longrightarrow> isTime b \<Longrightarrow> (compare a b < 0) = (toNanoSec a < toNanoSec b)"
  by (auto simp: compare_def isTime_def toNanoSec_def Let_def) 

lemma add_Inr: "add a b = Inr t \<Longrightarrow> isTime t \<and> toNanoSec t = toNanoSec a + toNanoSec b"
  by (auto simp: add_def fixTime_def isTime_def toNanoSec_def Let_def split: if_splits)

lemma add_returns: "isTime a \<Longrightarrow> isTime b \<Longrightarrow> \<exists>t. add a b = Inr t"
proof -
  assume a: "isTime a" "isTime b"
  then have "0 \<le> (nsec a + nsec b) div 1000000000"
    by (simp add: isTime_def pos_imp_zdiv_nonneg_iff)
  then have "\<not> sec a + sec b + (nsec a + nsec b) div 1000000000 < 0"
    using a by (simp add: isTime_def)
  then show ?thesis by (simp add: add_def fixTime_def Let_def)
qed

lemma isTime_clampTime: "isTime t \<Longrightarrow> isTime st \<Longrightarrow> isTime en \<Longrightarrow> isTime (clampTime t st en)"
  by (auto simp: clampTime_def isTime_def)

lemma nano_clampTime:
  "isTime t \<Longrightarrow> isTime st \<Longrightarrow> isTime en \<Longrightarrow> compare st en \<le> 0 \<Longrightarrow>
   toNanoSec (clampTime t st en) = max (toNanoSec st) (min (toNanoSec en) (toNanoSec t))"
  unfolding clampTime_def
  by (auto simp: compare_le_nano compare_gt_nano compare_lt_nano)
     (auto simp: toNanoSec_def)

lemma lastEnd_Inr:
  "isTime c \<Longrightarrow> \<exists>t. lastEnd c = Inr t \<and> isTime t \<and> toNanoSec t = max 0 (toNanoSec c - 1)"
  by (auto simp: lastEnd_def add_def fixTime_def isTime_def toNanoSec_def Let_def)


lemma currentTimes_append: "currentTimes (xs @ ys) = currentTimes xs @ currentTimes ys"
  by (simp add: currentTimes_def List.map_filter_def)

lemma currentTimes_single:
  "currentTimes [ps] = (case activeData ps of None \<Rightarrow> [] | Some ad \<Rightarrow> [currentTime ad])"
  by (simp add: currentTimes_def List.map_filter_def split: option.splits)

lemma monotone_log_core: "core s' = core s \<Longrightarrow> monotone_log base e0 s' = monotone_log base e0 s"
  by (simp add: core_def monotone_log_def cursor_ok_def reportedN_def cong: option.case_cong)

lemma emitState_body_fields:
  assumes "lastEnd (p_nextReadStartTime s) = Inr t"
  shows "\<exists>s'. emitState_body s = Inr s' \<and> p_start s' = p_start s \<and> p_end s' = p_end s \<and>
           p_nextReadStartTime s' = p_nextReadStartTime s \<and> p_tick s' = p_tick s \<and>
           p_backfill s' = p_backfill s"
  using assms
  by (cases "p_messages s = []") (simp_all add: emitState_body_def deliver_def Let_def split: option.splits)

lemma emitState_body_log:
  assumes "lastEnd (p_nextReadStartTime s) = Inr t" "emitState_body s = Inr s'"
  shows "emitted s' = emitted s \<or>
         (emitted s' = emitted s @ [last (emitted s')] \<and>
          (case activeData (last (emitted s')) of
             None \<Rightarrow> True
           | Some ad \<Rightarrow> currentTime ad = clampTime t (p_start s) (p_end s)))"
proof (cases "p_listener s")
  case False
  then show ?thesis using assms by (simp add: emitState_body_def)
next
  case l: True
  show ?thesis
  proof (cases "p_hasError s")
    case True
    then show ?thesis using assms l by (auto simp: emitState_body_def deliver_def)
  next
    case False
    show ?thesis
    proof (cases "p_currentTime s")
      case None
      then show ?thesis using assms l False
        by (cases "p_messages s = []") (auto simp: emitState_body_def deliver_def Let_def)
    next
      case (Some c)
      then show ?thesis using assms l False
        by (cases "p_messages s = []") (auto simp: emitState_body_def deliver_def Let_def dest: compare_eq_0)
    qed
  qed
qed


lemma monotone_log_emit:
  assumes "monotone_log base e0 s" "core s1 = core s"
    "emitted s' = emitted s1 @ [ps]"
    "case activeData ps of
       None \<Rightarrow> True
     | Some ad \<Rightarrow> currentTime ad = clampTime t (p_start s1) (p_end s1)"
    "lastEnd (p_nextReadStartTime s1) = Inr t"
    "p_start s' = p_start s1" "p_end s' = p_end s1" "p_nextReadStartTime s' = p_nextReadStartTime s1"
    "p_tick s' = p_tick s1" "p_backfill s' = p_backfill s1"
  shows "monotone_log base e0 s'"
proof -
  have c: "p_start s1 = p_start s" "p_end s1 = p_end s" "p_nextReadStartTime s1 = p_nextReadStartTime s"
    "p_tick s1 = p_tick s" "emitted s1 = emitted s" "p_backfill s1 = p_backfill s"
    using assms(2) by (simp_all add: core_def)
  have ok: "cursor_ok s" and e0: "p_end s = e0" using assms(1) by (simp_all add: monotone_log_def)
  obtain new where n: "emitted s = base @ new"
    "sorted_wrt (\<lambda>a b. compare a b \<le> 0) (currentTimes new)"
    "list_all (\<lambda>c. isTime c \<and> toNanoSec c \<le> reportedN s) (currentTimes new)"
    using assms(1) unfolding monotone_log_def by blast
  have r: "reportedN s' = reportedN s" using assms(6-8) c by (simp add: reportedN_def)
  have ok': "cursor_ok s'" using ok assms(6-10) c by (simp add: cursor_ok_def cong: option.case_cong)
  have em: "emitted s' = base @ (new @ [ps])" using assms(3) c n(1) by simp
  have e0': "p_end s' = e0" using e0 assms(7) c by simp
  show ?thesis
  proof (cases "activeData ps")
    case None
    then have ct: "currentTimes (new @ [ps]) = currentTimes new"
      by (simp add: currentTimes_append currentTimes_single)
    have "\<exists>new'. emitted s' = base @ new' \<and>
         sorted_wrt (\<lambda>a b. compare a b \<le> 0) (currentTimes new') \<and>
         list_all (\<lambda>c. isTime c \<and> toNanoSec c \<le> reportedN s') (currentTimes new')"
      by (rule exI[of _ "new @ [ps]"]) (simp add: em ct n(2) n(3) r)
    then show ?thesis using ok' e0' by (simp add: monotone_log_def)
  next
    case (Some ad)
    then have t: "currentTime ad = clampTime t (p_start s) (p_end s)"
      using assms(4) c by simp
    have it: "isTime (p_start s)" "isTime (p_end s)" "isTime (p_nextReadStartTime s)"
      "compare (p_start s) (p_end s) \<le> 0"
      using ok by (simp_all add: cursor_ok_def)
    obtain t' where t': "lastEnd (p_nextReadStartTime s) = Inr t'" "isTime t'"
      "toNanoSec t' = max 0 (toNanoSec (p_nextReadStartTime s) - 1)"
      using lastEnd_Inr[OF it(3)] by blast
    have tt: "t' = t" using assms(5) c t'(1) by simp
    have ic: "isTime (currentTime ad)" using t t'(2) tt it by (simp add: isTime_clampTime)
    have nc: "toNanoSec (currentTime ad) = reportedN s"
      using t t' tt it by (simp add: nano_clampTime reportedN_def)
    have ct: "currentTimes (new @ [ps]) = currentTimes new @ [currentTime ad]"
      using Some by (simp add: currentTimes_append currentTimes_single)
    have le: "\<forall>c \<in> set (currentTimes new). compare c (currentTime ad) \<le> 0"
      using n(3) ic nc by (auto simp: list_all_iff compare_le_nano)
    have s1: "sorted_wrt (\<lambda>a b. compare a b \<le> 0) (currentTimes (new @ [ps]))"
      using n(2) le ct by (simp add: sorted_wrt_append)
    have s2: "list_all (\<lambda>c. isTime c \<and> toNanoSec c \<le> reportedN s') (currentTimes (new @ [ps]))"
      using n(3) ic nc ct r by (simp add: list_all_iff)
    have "\<exists>new'. emitted s' = base @ new' \<and>
         sorted_wrt (\<lambda>a b. compare a b \<le> 0) (currentTimes new') \<and>
         list_all (\<lambda>c. isTime c \<and> toNanoSec c \<le> reportedN s') (currentTimes new')"
      by (rule exI[of _ "new @ [ps]"]) (simp add: em s1 s2)
    then show ?thesis using ok' e0' by (simp add: monotone_log_def)
  qed
qed

lemma monotone_log_emitState_body:
  assumes "monotone_log base e0 s" "core s1 = core s"
  shows "\<exists>s'. emitState_body s1 = Inr s' \<and> monotone_log base e0 s'"
proof -
  have c: "p_start s1 = p_start s" "p_end s1 = p_end s" "p_nextReadStartTime s1 = p_nextReadStartTime s"
    "p_tick s1 = p_tick s" "emitted s1 = emitted s" "p_backfill s1 = p_backfill s"
    using assms(2) by (simp_all add: core_def)
  have "isTime (p_nextReadStartTime s1)" using assms(1) c by (simp add: monotone_log_def cursor_ok_def)
  then obtain t where t: "lastEnd (p_nextReadStartTime s1) = Inr t" using lastEnd_Inr by blast
  from emitState_body_fields[OF t]
  obtain s' where s': "emitState_body s1 = Inr s'" "p_start s' = p_start s1" "p_end s' = p_end s1"
    "p_nextReadStartTime s' = p_nextReadStartTime s1" "p_tick s' = p_tick s1"
    "p_backfill s' = p_backfill s1"
    by blast
  have "monotone_log base e0 s'"
  proof (cases "emitted s' = emitted s1")
    case True
    then have "core s' = core s" using s'(2-6) c by (simp add: core_def)
    then have "monotone_log base e0 s' = monotone_log base e0 s" by (rule monotone_log_core)
    then show ?thesis using assms(1) by simp
  next
    case False
    have d: "emitted s' = emitted s1 \<or>
         (emitted s' = emitted s1 @ [last (emitted s')] \<and>
          (case activeData (last (emitted s')) of
             None \<Rightarrow> True
           | Some ad \<Rightarrow> currentTime ad = clampTime t (p_start s1) (p_end s1)))"
      by (rule emitState_body_log[OF t s'(1)])
    have ps1: "emitted s' = emitted s1 @ [last (emitted s')]" using d False by blast
    have ps2: "case activeData (last (emitted s')) of
             None \<Rightarrow> True
           | Some ad \<Rightarrow> currentTime ad = clampTime t (p_start s1) (p_end s1)"
      using d False by blast
    show ?thesis
      by (rule monotone_log_emit[OF assms(1) assms(2) ps1 ps2 t s'(2) s'(3) s'(4) s'(5) s'(6)])
  qed
  then show ?thesis using s'(1) by blast
qed

lemma monotone_log_emitState:
  assumes "monotone_log base e0 s" "core s1 = core s"
  shows "\<exists>s'. emitState s1 = Inr s' \<and> monotone_log base e0 s'"
proof (cases "emitRunning s1")
  case True
  have "core (s1\<lparr>emitCalledWhileRunning := True\<rparr>) = core s" using assms(2) by (simp add: core_def)
  then have "monotone_log base e0 (s1\<lparr>emitCalledWhileRunning := True\<rparr>) = monotone_log base e0 s"
    by (rule monotone_log_core)
  then have "monotone_log base e0 (s1\<lparr>emitCalledWhileRunning := True\<rparr>)"
    using assms(1) by simp
  then show ?thesis using True by (simp add: emitState_def)
next
  case False
  then show ?thesis using monotone_log_emitState_body[OF assms] by (simp add: emitState_def)
qed


lemma monotone_log_same:
  "monotone_log base e0 s \<Longrightarrow> core s' = core s \<Longrightarrow> monotone_log base e0 s'"
  using monotone_log_core by blast

lemma monotone_log_advance:
  assumes "monotone_log base e0 s" "p_start s' = p_start s" "p_end s' = p_end s"
    "emitted s' = emitted s" "cursor_ok s'"
    "toNanoSec (p_nextReadStartTime s) \<le> toNanoSec (p_nextReadStartTime s')"
  shows "monotone_log base e0 s'"
proof -
  have e0: "p_end s = e0" using assms(1) by (simp add: monotone_log_def)
  obtain new where n: "emitted s = base @ new"
    "sorted_wrt (\<lambda>a b. compare a b \<le> 0) (currentTimes new)"
    "list_all (\<lambda>c. isTime c \<and> toNanoSec c \<le> reportedN s) (currentTimes new)"
    using assms(1) unfolding monotone_log_def by blast
  have r: "reportedN s \<le> reportedN s'" using assms(2,3,6) by (simp add: reportedN_def)
  have "list_all (\<lambda>c. isTime c \<and> toNanoSec c \<le> reportedN s') (currentTimes new)"
    using n(3) r by (auto simp: list_all_iff)
  then have "\<exists>new'. emitted s' = base @ new' \<and>
         sorted_wrt (\<lambda>a b. compare a b \<le> 0) (currentTimes new') \<and>
         list_all (\<lambda>c. isTime c \<and> toNanoSec c \<le> reportedN s') (currentTimes new')"
    using n(1,2) assms(4) by (intro exI[of _ new]) simp
  then show ?thesis using assms(5) e0 assms(3) by (simp add: monotone_log_def)
qed

lemma monotone_log_setError:
  assumes "monotone_log base e0 s" "core s1 = core s"
  shows "\<exists>s'. setError m s1 = Inr s' \<and> monotone_log base e0 s'"
  unfolding setError_def Let_def
  by (rule monotone_log_emitState[OF assms(1)]) (use assms(2) in \<open>simp add: core_def\<close>)

lemma getMessages_complete_core:
  "getMessages_complete tps res s = (msgs, s') \<Longrightarrow> core s' = core s"
  by (auto simp: getMessages_complete_def core_def Let_def split: if_splits option.splits prod.splits)

lemma monotone_log_tick_started:
  assumes "monotone_log base e0 s" "isTime rt"
  shows "monotone_log base e0 (state_of (tick_started rt s))"
proof (cases "\<not> p_readingLocked s \<or> p_tick s \<noteq> None \<or> \<not> (p_isPlaying s \<and> \<not> p_hasError s)")
  case True
  then show ?thesis using assms(1) by (simp add: tick_started_def state_of_def)
next
  case False
  then have g: "p_readingLocked s" "p_tick s = None" "p_isPlaying s" "\<not> p_hasError s" by auto
  have ok: "cursor_ok s" using assms(1) by (simp add: monotone_log_def)
  then have it: "isTime (p_start s)" "isTime (p_end s)" "isTime (p_nextReadStartTime s)"
    "compare (p_start s) (p_end s) \<le> 0" by (simp_all add: cursor_ok_def)
  show ?thesis
  proof (cases "tick_begin rt s")
    case (Inl e)
    have "core (s\<lparr>p_readingLocked := False\<rparr>) = core s" by (simp add: core_def)
    from monotone_log_setError[OF assms(1) this, of "''Cannot normalize invalid time''"]
    obtain s' where "setError ''Cannot normalize invalid time'' (s\<lparr>p_readingLocked := False\<rparr>) = Inr s'"
      "monotone_log base e0 s'" by blast
    then show ?thesis using False Inl by (simp add: tick_started_def state_of_def)
  next
    case (Inr r)
    show ?thesis
    proof (cases r)
      case None
      have "core (s\<lparr>p_tick := None\<rparr>) = core s" using g(2) by (simp add: core_def)
      then have "monotone_log base e0 (s\<lparr>p_tick := None\<rparr>)"
        using assms(1) monotone_log_same by blast
      then show ?thesis using False Inr None by (simp add: tick_started_def state_of_def)
    next
      case (Some tr)
      have nb: "\<not> compare (p_nextReadStartTime s) (p_end s) > 0"
        using Inr Some by (auto simp: tick_begin_def split: if_splits)
      obtain t where t: "add (p_nextReadStartTime s) rt = Inr t"
        "tr_end tr = clampTime t (p_start s) (p_end s)"
        using Inr Some by (auto simp: tick_begin_def split: if_splits sum.splits)
      have tt: "isTime t" "toNanoSec t = toNanoSec (p_nextReadStartTime s) + toNanoSec rt"
        using add_Inr[OF t(1)] by simp_all
      have rt0: "0 \<le> toNanoSec rt" using assms(2) by (simp add: isTime_def toNanoSec_def)
      have ie: "isTime (tr_end tr)" using t(2) tt(1) it by (simp add: isTime_clampTime)
      have ne: "toNanoSec (tr_end tr) = max (toNanoSec (p_start s)) (min (toNanoSec (p_end s)) (toNanoSec t))"
        using t(2) tt(1) it by (simp add: nano_clampTime)
      have ce: "toNanoSec (p_nextReadStartTime s) \<le> toNanoSec (p_end s)"
        using nb it by (simp add: compare_gt_nano)
      have se: "toNanoSec (p_start s) \<le> toNanoSec (p_end s)"
        using it by (simp add: compare_le_nano)
      have le: "toNanoSec (p_nextReadStartTime s) \<le> toNanoSec (tr_end tr)"
        "toNanoSec (p_start s) \<le> toNanoSec (tr_end tr)"
        "toNanoSec (tr_end tr) \<le> toNanoSec (p_end s)"
        using ne tt rt0 ce se by simp_all
      have ok': "cursor_ok (s\<lparr>p_tick := Some tr\<rparr>)"
        using ok ie le by (auto simp: cursor_ok_def split: option.splits)
      obtain new where n: "emitted s = base @ new"
        "sorted_wrt (\<lambda>a b. compare a b \<le> 0) (currentTimes new)"
        "list_all (\<lambda>c. isTime c \<and> toNanoSec c \<le> reportedN s) (currentTimes new)"
        and e0: "p_end s = e0"
        using assms(1) unfolding monotone_log_def by blast
      have "\<exists>new'. emitted (s\<lparr>p_tick := Some tr\<rparr>) = base @ new' \<and>
         sorted_wrt (\<lambda>a b. compare a b \<le> 0) (currentTimes new') \<and>
         list_all (\<lambda>c. isTime c \<and> toNanoSec c \<le> reportedN (s\<lparr>p_tick := Some tr\<rparr>)) (currentTimes new')"
        using n by (intro exI[of _ new]) (simp add: reportedN_def)
      then have "monotone_log base e0 (s\<lparr>p_tick := Some tr\<rparr>)"
        using ok' e0 by (simp add: monotone_log_def)
      then show ?thesis using False Inr Some by (simp add: tick_started_def state_of_def)
    qed
  qed
qed


lemma monotone_log_tick_complete:
  assumes "monotone_log base e0 s" "p_tick s = None" "isTime (tr_end r)"
    "toNanoSec (p_nextReadStartTime s) \<le> toNanoSec (tr_end r) + 1"
    "toNanoSec (tr_end r) \<le> toNanoSec (p_end s)"
  shows "\<exists>s'. tick_complete r msgs s = Inr s' \<and> monotone_log base e0 s'"
proof (cases "p_lastSeekStartTime s \<noteq> tr_seekTime r")
  case True
  then show ?thesis using assms(1) by (simp add: tick_complete_def)
next
  case False
  have ok: "cursor_ok s" using assms(1) by (simp add: monotone_log_def)
  have "isTime \<lparr>sec = 0, nsec = 1\<rparr>" by (simp add: isTime_def)
  then obtain t where t: "add (tr_end r) \<lparr>sec = 0, nsec = 1\<rparr> = Inr t"
    using assms(3) add_returns by blast
  have tt: "isTime t" "toNanoSec t = toNanoSec (tr_end r) + 1"
    using add_Inr[OF t] by (simp_all add: toNanoSec_def)
  have le: "toNanoSec (p_nextReadStartTime s) \<le> toNanoSec t"
    using assms(4) tt by simp
  let ?s1 = "s\<lparr>p_nextReadStartTime := t, p_nextReadStartTimeRef := Suc (p_nextReadStartTimeRef s)\<rparr>"
  have ok1: "cursor_ok ?s1"
    using ok assms(2,5) tt by (auto simp: cursor_ok_def split: option.splits)
  have m1: "monotone_log base e0 ?s1"
    by (rule monotone_log_advance[OF assms(1)]) (use ok1 le in simp_all)
  show ?thesis
  proof (cases "p_isPlaying s")
    case True
    have "core (?s1\<lparr>p_messages := p_messages ?s1 @ msgs\<rparr>) = core ?s1" by (simp add: core_def)
    from monotone_log_emitState[OF m1 this]
    show ?thesis using False t True by (simp add: tick_complete_def Let_def)
  next
    case np: False
    show ?thesis using False t np m1 by (simp add: tick_complete_def Let_def)
  qed
qed

lemma cursor_ok_no_tick: "cursor_ok s \<Longrightarrow> cursor_ok (s\<lparr>p_tick := None\<rparr>)"
  by (auto simp: cursor_ok_def split: option.splits)

lemma cursor_ok_no_backfill: "cursor_ok s \<Longrightarrow> cursor_ok (s\<lparr>p_backfill := None\<rparr>)"
  by (auto simp: cursor_ok_def split: option.splits if_splits)

lemma monotone_log_no_tick:
  assumes "monotone_log base e0 s"
  shows "monotone_log base e0 (s\<lparr>p_tick := None\<rparr>)"
proof -
  have "cursor_ok (s\<lparr>p_tick := None\<rparr>)"
    using assms by (simp add: monotone_log_def cursor_ok_no_tick)
  then show ?thesis by (intro monotone_log_advance[OF assms]) simp_all
qed

lemma monotone_log_no_backfill:
  assumes "monotone_log base e0 s"
  shows "monotone_log base e0 (s\<lparr>p_backfill := None\<rparr>)"
proof -
  have "cursor_ok (s\<lparr>p_backfill := None\<rparr>)"
    using assms by (simp add: monotone_log_def cursor_ok_no_backfill)
  then show ?thesis by (intro monotone_log_advance[OF assms]) simp_all
qed

lemma monotone_log_tick_finished:
  assumes "monotone_log base e0 s"
  shows "monotone_log base e0 (state_of (tick_finished res s))"
proof (cases "p_tick s")
  case None
  then show ?thesis using assms by (simp add: tick_finished_def state_of_def)
next
  case (Some r)
  obtain msgs s1 where g: "getMessages_complete (tr_parsedTopics r) res (s\<lparr>p_tick := None\<rparr>) = (msgs, s1)"
    by (cases "getMessages_complete (tr_parsedTopics r) res (s\<lparr>p_tick := None\<rparr>)")
  have ok: "cursor_ok s" using assms by (simp add: monotone_log_def)
  then have r: "isTime (tr_end r)" "toNanoSec (p_nextReadStartTime s) \<le> toNanoSec (tr_end r) + 1"
    "toNanoSec (tr_end r) \<le> toNanoSec (p_end s)"
    using Some by (auto simp: cursor_ok_def split: if_splits)
  have m0: "monotone_log base e0 (s\<lparr>p_tick := None\<rparr>)"
    by (rule monotone_log_no_tick[OF assms])
  have c1: "core s1 = core (s\<lparr>p_tick := None\<rparr>)" by (rule getMessages_complete_core[OF g])
  have m1: "monotone_log base e0 s1" by (rule monotone_log_same[OF m0 c1])
  have t1: "p_tick s1 = None" "p_nextReadStartTime s1 = p_nextReadStartTime s" "p_end s1 = p_end s"
    using c1 by (simp_all add: core_def)
  from monotone_log_tick_complete[OF m1 t1(1) r(1), of msgs] r(2,3) t1(2,3)
  obtain s2 where "tick_complete r msgs s1 = Inr s2" "monotone_log base e0 s2" by auto
  then show ?thesis using Some g by (simp add: tick_finished_def state_of_def)
qed

lemma monotone_log_tick_rejected:
  assumes "monotone_log base e0 s"
  shows "monotone_log base e0 (state_of (tick_rejected msg s))"
proof (cases "p_tick s")
  case None
  then show ?thesis using assms by (simp add: tick_rejected_def state_of_def)
next
  case (Some r)
  show ?thesis
  proof (cases "tr_parsedTopics r = []")
    case True
    then show ?thesis using assms Some by (simp add: tick_rejected_def state_of_def)
  next
    case False
    have m0: "monotone_log base e0 (s\<lparr>p_tick := None\<rparr>)"
      by (rule monotone_log_no_tick[OF assms])
    have "core (s\<lparr>p_tick := None, p_readingLocked := False\<rparr>) = core (s\<lparr>p_tick := None\<rparr>)"
      by (simp add: core_def)
    from monotone_log_setError[OF m0 this, of msg]
    obtain s' where "setError msg (s\<lparr>p_tick := None, p_readingLocked := False\<rparr>) = Inr s'"
      "monotone_log base e0 s'" by blast
    then show ?thesis using Some False by (simp add: tick_rejected_def state_of_def)
  qed
qed

lemma monotone_log_backfill_rejected:
  assumes "monotone_log base e0 s"
  shows "monotone_log base e0 (backfill_rejected s)"
  using assms monotone_log_no_backfill[OF assms]
  by (auto simp: backfill_rejected_def split: option.splits)

lemma areEqual_eq: "areEqual a b \<Longrightarrow> a = b"
  by (cases a, cases b) (simp add: areEqual_def)

lemma monotone_log_backfill_pass:
  assumes "monotone_log base e0 s" "p_backfill s = None"
    "\<forall>r. p_tick s = Some r \<longrightarrow> toNanoSec (p_nextReadStartTime s) \<le> toNanoSec (tr_end r)"
  shows "monotone_log base e0 (backfill_pass d now s)"
proof (cases "p_isPlaying s")
  case True
  have "core (s\<lparr>p_lastSeekEmitTime := now\<rparr>) = core s" by (simp add: core_def)
  from monotone_log_same[OF assms(1) this]
  show ?thesis using True by (simp add: backfill_pass_def)
next
  case False
  let ?s1 = "s\<lparr>p_cancelSeekBackfill := False, p_messages := []\<rparr>"
  have c: "core ?s1 = core s" by (simp add: core_def)
  have m1: "monotone_log base e0 ?s1" by (rule monotone_log_same[OF assms(1) c])
  have d: "backfill_pass d now s = ?s1 \<or>
        (\<exists>b. backfill_pass d now s = ?s1\<lparr>p_backfill := Some b\<rparr> \<and>
             bf_backfillEnd b = clampTime (bf_readStartTime b) (p_start s) (p_end s))"
    using False by (auto simp: backfill_pass_def Let_def split: sum.splits)
  show ?thesis
  proof (cases "backfill_pass d now s = ?s1")
    case True
    then show ?thesis using m1 by simp
  next
    case nb: False
    then obtain b where b: "backfill_pass d now s = ?s1\<lparr>p_backfill := Some b\<rparr>"
      "bf_backfillEnd b = clampTime (bf_readStartTime b) (p_start s) (p_end s)"
      using d by blast
    have ok: "cursor_ok s" using assms(1) by (simp add: monotone_log_def)
    have ok': "cursor_ok (?s1\<lparr>p_backfill := Some b\<rparr>)"
      using ok b(2) assms(3) by (auto simp: cursor_ok_def split: option.splits if_splits)
    have "monotone_log base e0 (?s1\<lparr>p_backfill := Some b\<rparr>)"
      by (rule monotone_log_advance[OF assms(1)]) (use ok' in simp_all)
    then show ?thesis using b(1) by simp
  qed
qed

lemma monotone_log_backfill_complete:
  assumes "monotone_log base e0 s"
  shows "monotone_log base e0 (backfill_complete res now s)"
proof (cases "p_backfill s")
  case None
  then show ?thesis using assms by (simp add: backfill_complete_def)
next
  case (Some b)
  obtain msgs s1 where g: "getMessages_complete (bf_parsedTopics b) res (s\<lparr>p_backfill := None\<rparr>) = (msgs, s1)"
    by (cases "getMessages_complete (bf_parsedTopics b) res (s\<lparr>p_backfill := None\<rparr>)")
  have ok: "cursor_ok s" using assms by (simp add: monotone_log_def)
  have it: "isTime (p_start s)" "isTime (p_end s)" "isTime (p_nextReadStartTime s)"
    "compare (p_start s) (p_end s) \<le> 0"
    "toNanoSec (p_nextReadStartTime s) \<le> toNanoSec (p_end s) + 1"
    using ok by (simp_all add: cursor_ok_def)
  have se: "toNanoSec (p_start s) \<le> toNanoSec (p_end s)"
    using it by (simp add: compare_le_nano)
  have be: "bf_backfillEnd b = clampTime (bf_readStartTime b) (p_start s) (p_end s)"
    using ok Some by (simp add: cursor_ok_def)
  have tk: "\<forall>r. p_tick s = Some r \<longrightarrow>
              isTime (tr_end r) \<and> toNanoSec (p_start s) \<le> toNanoSec (tr_end r) \<and>
              toNanoSec (tr_end r) \<le> toNanoSec (p_end s) \<and>
              toNanoSec (p_nextReadStartTime s) \<le> toNanoSec (tr_end r)"
    using ok Some by (auto simp: cursor_ok_def)
  have m0: "monotone_log base e0 (s\<lparr>p_backfill := None\<rparr>)"
    by (rule monotone_log_no_backfill[OF assms])
  have c1: "core s1 = core (s\<lparr>p_backfill := None\<rparr>)" by (rule getMessages_complete_core[OF g])
  have m1: "monotone_log base e0 s1" by (rule monotone_log_same[OF m0 c1])
  have f1: "p_start s1 = p_start s" "p_end s1 = p_end s"
    "p_nextReadStartTime s1 = p_nextReadStartTime s" "p_tick s1 = p_tick s" "p_backfill s1 = None"
    "emitted s1 = emitted s"
    using c1 by (simp_all add: core_def)
  have ok1: "cursor_ok s1" using m1 by (simp add: monotone_log_def)
  show ?thesis
  proof (cases "areEqual (p_nextReadStartTime s1) (bf_readStartTime b) \<and> \<not> p_cancelSeekBackfill s1")
    case True
    then have rs: "bf_readStartTime b = p_nextReadStartTime s"
      using areEqual_eq[of "p_nextReadStartTime s1" "bf_readStartTime b"] f1(3) by simp
    have ib: "isTime (bf_backfillEnd b)"
      using be rs it by (simp add: isTime_clampTime)
    have nb: "toNanoSec (bf_backfillEnd b) =
              max (toNanoSec (p_start s)) (min (toNanoSec (p_end s)) (toNanoSec (p_nextReadStartTime s)))"
      using be rs it by (simp add: nano_clampTime)
    have "isTime \<lparr>sec = 0, nsec = 1\<rparr>" by (simp add: isTime_def)
    then obtain t where t: "add (bf_backfillEnd b) \<lparr>sec = 0, nsec = 1\<rparr> = Inr t"
      using ib add_returns by blast
    have tt: "isTime t" "toNanoSec t = toNanoSec (bf_backfillEnd b) + 1"
      using add_Inr[OF t] by (simp_all add: toNanoSec_def)
    have le: "toNanoSec (p_nextReadStartTime s) \<le> toNanoSec t"
      using tt(2) nb it(5) se by simp
    have ue: "toNanoSec t \<le> toNanoSec (p_end s) + 1"
      using tt(2) nb se by simp
    have ut: "\<forall>r. p_tick s = Some r \<longrightarrow> toNanoSec t \<le> toNanoSec (tr_end r) + 1"
      using tt(2) nb tk by auto
    let ?s2 = "s1\<lparr>p_nextReadStartTime := t, p_nextReadStartTimeRef := Suc (p_nextReadStartTimeRef s1)\<rparr>"
    let ?s3 = "s1\<lparr>p_nextReadStartTime := t, p_nextReadStartTimeRef := Suc (p_nextReadStartTimeRef s1),
                   p_messages := msgs, p_lastSeekEmitTime := now\<rparr>"
    have ok2: "cursor_ok ?s2"
      using ok1 f1 tt(1) ue ut tk by (auto simp: cursor_ok_def split: option.splits)
    have m2: "monotone_log base e0 ?s2"
      by (rule monotone_log_advance[OF m1]) (use ok2 le f1 in simp_all)
    have "core ?s3 = core ?s2" by (simp add: core_def)
    from monotone_log_emitState[OF m2 this]
    obtain s' where s': "emitState ?s3 = Inr s'" "monotone_log base e0 s'" by blast
    have "backfill_complete res now s = s'"
      using Some g True t s'(1) by (simp add: backfill_complete_def)
    then show ?thesis using s'(2) by simp
  next
    case nm: False
    show ?thesis
    proof (cases "bf_readStartTimeRef b \<noteq> p_nextReadStartTimeRef s1")
      case True
      have "\<forall>r. p_tick s1 = Some r \<longrightarrow> toNanoSec (p_nextReadStartTime s1) \<le> toNanoSec (tr_end r)"
        using tk f1 by simp
      from monotone_log_backfill_pass[OF m1 f1(5) this, of "bf_backfillDuration b" now]
      have "monotone_log base e0 (backfill_pass (bf_backfillDuration b) now s1)" .
      moreover have "backfill_complete res now s = backfill_pass (bf_backfillDuration b) now s1"
        using Some g nm True by (auto simp: backfill_complete_def)
      ultimately show ?thesis by simp
    next
      case False
      have "backfill_complete res now s = s1"
        using Some g nm False by (auto simp: backfill_complete_def)
      then show ?thesis using m1 by simp
    qed
  qed
qed

lemma monotone_log_step:
  assumes "monotone_log base e0 s" "forward e"
  shows "monotone_log base e0 (state_of (step e s))"
proof (cases e)
  case SetListener
  have "core (s\<lparr>p_listener := True\<rparr>) = core s" by (simp add: core_def)
  from monotone_log_emitState[OF assms(1) this]
  show ?thesis using SetListener by (auto simp: setListener_def state_of_def)
next
  case ListenerResolved
  show ?thesis
  proof (cases "emitCalledWhileRunning s")
    case True
    have "core (s\<lparr>emitRunning := False, emitCalledWhileRunning := False\<rparr>) = core s"
      by (simp add: core_def)
    from monotone_log_emitState_body[OF assms(1) this]
    show ?thesis using ListenerResolved True by (auto simp: listener_resolved_def state_of_def Let_def)
  next
    case False
    have "core (s\<lparr>emitRunning := False\<rparr>) = core s" by (simp add: core_def)
    from monotone_log_same[OF assms(1) this]
    show ?thesis using ListenerResolved False by (simp add: listener_resolved_def state_of_def Let_def)
  qed
next
  case (InitializeResolved r t now)
  then show ?thesis using assms(2) by simp
next
  case InitializeRejected
  from monotone_log_setError[OF assms(1) refl, of "''Error initializing player''"]
  show ?thesis using InitializeRejected by (auto simp: initialize_rejected_def state_of_def)
next
  case ProgressCallback
  from monotone_log_emitState[OF assms(1) refl]
  show ?thesis using ProgressCallback assms(1) by (auto simp: progressCallback_def state_of_def)
next
  case (UpdateReconnecting b)
  have "core (s\<lparr>p_reconnecting := b\<rparr>) = core s" by (simp add: core_def)
  from monotone_log_emitState[OF assms(1) this]
  show ?thesis using UpdateReconnecting by (auto simp: updateReconnecting_def state_of_def)
next
  case StartPlayback
  have "core (s\<lparr>p_isPlaying := True\<rparr>) = core s" by (simp add: core_def)
  from monotone_log_emitState[OF assms(1) this]
  obtain s' where s': "emitState (s\<lparr>p_isPlaying := True\<rparr>) = Inr s'" "monotone_log base e0 s'" by blast
  have "core (s'\<lparr>p_readingLocked := True\<rparr>) = core s'" by (simp add: core_def)
  from monotone_log_same[OF s'(2) this]
  show ?thesis using StartPlayback s'(1) assms(1) by (simp add: startPlayback_def state_of_def)
next
  case PausePlayback
  have "core (s\<lparr>p_isPlaying := False\<rparr>) = core s" by (simp add: core_def)
  from monotone_log_emitState[OF assms(1) this]
  show ?thesis using PausePlayback assms(1) by (auto simp: pausePlayback_def state_of_def)
next
  case (SetPlaybackSpeed v)
  have "core (s\<lparr>p_speed := v\<rparr>) = core s" by (simp add: core_def)
  from monotone_log_emitState[OF assms(1) this]
  show ?thesis using SetPlaybackSpeed by (auto simp: setPlaybackSpeed_def state_of_def)
next
  case (SeekPlayback t d now)
  then show ?thesis using assms(2) by simp
next
  case (BackfillComplete res now)
  then show ?thesis using assms(1) monotone_log_backfill_complete by (simp add: state_of_def)
next
  case (SetSubscriptions subs)
  have "core (s\<lparr>p_parsedSubscribedTopics := newSet subs\<rparr>) = core s" by (simp add: core_def)
  from monotone_log_same[OF assms(1) this]
  show ?thesis using SetSubscriptions by (simp add: setSubscriptions_def state_of_def)
next
  case (SetPublishers pubs)
  then show ?thesis using assms(1) by (simp add: setPublishers_def state_of_def)
next
  case (SetParameter k v)
  then show ?thesis using assms(1) by (simp add: setParameter_def state_of_def)
next
  case (Publish pl)
  then show ?thesis using assms(1) by (simp add: publish_def state_of_def)
next
  case Close
  have "core (state_of (close s)) = core s" by (simp add: close_def state_of_def core_def Let_def)
  from monotone_log_same[OF assms(1) this]
  show ?thesis using Close by simp
next
  case (TickStarted rt)
  then show ?thesis using assms monotone_log_tick_started by simp
next
  case (TickFinished res)
  then show ?thesis using assms monotone_log_tick_finished by simp
next
  case ReadFinished
  have "core (state_of (read_finished s)) = core s" by (simp add: read_finished_def state_of_def core_def)
  from monotone_log_same[OF assms(1) this]
  show ?thesis using ReadFinished by simp
next
  case (TickRejected msg)
  then show ?thesis using assms(1) monotone_log_tick_rejected by simp
next
  case BackfillRejected
  then show ?thesis using assms(1) monotone_log_backfill_rejected by (simp add: state_of_def)
qed

lemma monotone_log_run:
  "monotone_log base e0 s \<Longrightarrow> list_all forward evs \<Longrightarrow> monotone_log base e0 (run evs s)"
  by (induction evs arbitrary: s) (simp_all add: monotone_log_step)

lemma reportedN_le_end:
  "cursor_ok s \<Longrightarrow> reportedN s \<le> toNanoSec (p_end s)"
  by (auto simp: cursor_ok_def reportedN_def compare_le_nano)

text \<open>
  C10, amended. Take a state whose range and read cursor are well-formed, whose tick in
  flight, if any, reads up to a Time in the range that is not before the cursor, and whose
  backfill in flight, if any, ends at the clamped cursor it started from (\<open>cursor_ok\<close>).
  Along any run from it in which no seek and no initialisation occurs and ticks ask for
  reads of non-negative length (\<open>forward\<close>), the values of \<open>currentTime\<close> in the
  snapshots delivered are non-decreasing in the order of \<open>compare\<close>, and none is after
  the end of the range. This holds whether or not the player is playing, and also when the
  backfill of an earlier seek completes during the run.
\<close>

theorem currentTime_nondecreasing_without_seek:
  assumes "cursor_ok s" and "list_all forward evs"
  shows "\<exists>new. emitted (run evs s) = emitted s @ new \<and>
           sorted_wrt (\<lambda>a b. compare a b \<le> 0) (currentTimes new) \<and>
           list_all (\<lambda>c. compare c (p_end s) \<le> 0) (currentTimes new)"
proof -
  have "monotone_log (emitted s) (p_end s) s"
    using assms(1) by (simp add: monotone_log_def currentTimes_def List.map_filter_def)
  then have m: "monotone_log (emitted s) (p_end s) (run evs s)"
    using assms(2) by (rule monotone_log_run)
  then obtain new where n: "emitted (run evs s) = emitted s @ new"
    "sorted_wrt (\<lambda>a b. compare a b \<le> 0) (currentTimes new)"
    "list_all (\<lambda>c. isTime c \<and> toNanoSec c \<le> reportedN (run evs s)) (currentTimes new)"
    unfolding monotone_log_def by blast
  have ok: "cursor_ok (run evs s)" and e: "p_end (run evs s) = p_end s"
    using m by (simp_all add: monotone_log_def)
  have ie: "isTime (p_end s)" using assms(1) by (simp add: cursor_ok_def)
  have "list_all (\<lambda>c. compare c (p_end s) \<le> 0) (currentTimes new)"
    using n(3) reportedN_le_end[OF ok] e ie by (auto simp: list_all_iff compare_le_nano)
  then show ?thesis using n(1,2) by blast
qed


text \<open>
  C10, as the claim states it, fails: in the run \<open>seek_back_while_playing\<close> the player,
  while playing, emits \<open>currentTime\<close> 20000001 ns after a tick, is seeked to 0 s, and
  emits \<open>currentTime\<close> 1000000 ns after the next tick; both snapshots say \<open>isPlaying\<close>.
\<close>

theorem seek_back_while_playing_decreases:
  "map (\<lambda>ps. map_option (\<lambda>ad. (isPlaying ad, currentTime ad)) (activeData ps))
     (drop 3 (emitted (run seek_back_while_playing (new_player 0)))) =
   [Some (True, \<lparr>sec = 0, nsec = 20000001\<rparr>), Some (True, \<lparr>sec = 0, nsec = 1000000\<rparr>)] \<and>
   compare \<lparr>sec = 0, nsec = 20000001\<rparr> \<lparr>sec = 0, nsec = 1000000\<rparr> > 0"
  by (simp add: example_defs2 player_defs)

text \<open>
  The amended C10 after a seek to 5 s while paused: playback starts, the backfill of the
  seek completes, and a tick of 20 ms follows.
\<close>

theorem currentTime_nondecreasing_without_seek_witness:
  "cursor_ok (run example_paused_seek (new_player 0)) \<and> list_all forward play_through_backfill \<and>
   map (\<lambda>ps. map_option (\<lambda>ad. (isPlaying ad, currentTime ad)) (activeData ps))
     (drop 2 (emitted (run play_through_backfill (run example_paused_seek (new_player 0))))) =
     [Some (True, \<lparr>sec = 4, nsec = 999999999\<rparr>), Some (True, \<lparr>sec = 5, nsec = 0\<rparr>),
      Some (True, \<lparr>sec = 5, nsec = 20000001\<rparr>)] \<and>
   (\<exists>new. emitted (run play_through_backfill (run example_paused_seek (new_player 0))) =
            emitted (run example_paused_seek (new_player 0)) @ new \<and>
          sorted_wrt (\<lambda>a b. compare a b \<le> 0) (currentTimes new) \<and>
          list_all (\<lambda>c. compare c (p_end (run example_paused_seek (new_player 0))) \<le> 0)
            (currentTimes new))"
proof -
  have ok: "cursor_ok (run example_paused_seek (new_player 0))"
    by (simp add: example_paused_seek_def example_defs player_defs cursor_ok_def isTime_def
        toNanoSec_def)
  have fw: "list_all forward play_through_backfill"
    by (simp add: play_through_backfill_def isTime_def)
  have ct: "map (\<lambda>ps. map_option (\<lambda>ad. (isPlaying ad, currentTime ad)) (activeData ps))
     (drop 2 (emitted (run play_through_backfill (run example_paused_seek (new_player 0))))) =
     [Some (True, \<lparr>sec = 4, nsec = 999999999\<rparr>), Some (True, \<lparr>sec = 5, nsec = 0\<rparr>),
      Some (True, \<lparr>sec = 5, nsec = 20000001\<rparr>)]"
    by (simp add: example_paused_seek_def play_through_backfill_def example_defs player_defs)
  show ?thesis
    using ok fw ct currentTime_nondecreasing_without_seek [OF ok fw] by blast
qed

section \<open>Properties of the McapReader\<close>

subsection \<open>Calls of the generator\<close>

lemma nextRecord_reader_in:
  "nextRecord pm pr (reader_in inc h g st) =
     (case generator_next pm pr inc h g st of
        None \<Rightarrow> None
      | Some (res, g', st') \<Rightarrow>
          (case res of
             Yield v \<Rightarrow> Some (Inr v, reader_in inc h g' st')
           | Return v \<Rightarrow> Some (Inr v, (reader_in inc h g' st')\<lparr>doneReading := True\<rparr>)
           | Throw e \<Rightarrow> Some (Inl e, reader_in inc h g' st')))"
  by (simp add: nextRecord_def reader_in_def Let_def split: option.splits generator_result.splits)

lemma drain_cong:
  assumes "generator_next pm pr inc h g st = generator_next pm pr inc h g' st'"
  shows "drain pm pr (reader_in inc h g st) acc = drain pm pr (reader_in inc h g' st') acc"
proof -
  have "nextRecord pm pr (reader_in inc h g st) = nextRecord pm pr (reader_in inc h g' st')"
    by (simp add: nextRecord_reader_in assms)
  then show ?thesis
    by (simp add: drain.simps[of pm pr "reader_in inc h g st"] drain.simps[of pm pr "reader_in inc h g' st'"])
qed

lemma drain_yield:
  assumes "generator_next pm pr inc h g st = Some (Yield (Some rec), g', st')"
  shows "drain pm pr (reader_in inc h g st) acc = drain pm pr (reader_in inc h g' st') (acc @ [rec])"
  by (simp add: drain.simps[of pm pr "reader_in inc h g st"] nextRecord_reader_in assms)

lemma drain_need_more:
  assumes "generator_next pm pr inc h g st = Some (Yield None, g', st')"
  shows "drain pm pr (reader_in inc h g st) acc = Some (acc, None, reader_in inc h g' st')"
  by (simp add: drain.simps[of pm pr "reader_in inc h g st"] nextRecord_reader_in assms)

lemma drain_done:
  "doneReading r \<Longrightarrow> drain pm pr r acc = Some (acc, None, r)"
  by (simp add: drain.simps[of pm pr r] nextRecord_def)

lemma drain_return:
  assumes "generator_next pm pr inc h g st = Some (Return (Some rec), g', st')"
  shows "drain pm pr (reader_in inc h g st) acc =
           Some (acc @ [rec], None, (reader_in inc h g' st')\<lparr>doneReading := True\<rparr>)"
  by (simp add: drain.simps[of pm pr "reader_in inc h g st"] nextRecord_reader_in assms drain_done)

lemma drain_throw:
  assumes "generator_next pm pr inc h g st = Some (Throw e, g', st')"
  shows "drain pm pr (reader_in inc h g st) acc = Some (acc, Some e, reader_in inc h g' st')"
  by (simp add: drain.simps[of pm pr "reader_in inc h g st"] nextRecord_reader_in assms)

lemma gen_start_magic:
  assumes "codec pm pr magic enc ok"
  shows "generator_next pm pr inc h G_Start (magic @ rest) = generator_next pm pr inc h G_Records rest"
  using assms
  by (subst generator_next.simps) (simp add: read_step_def codec_def)

lemma gen_start_more:
  assumes "codec pm pr magic enc ok" "strict_prefix p magic"
  shows "generator_next pm pr inc h G_Start p = Some (Yield None, G_Start, p)"
  using assms
  by (subst generator_next.simps) (simp add: read_step_def codec_def)

lemma codec_parse:
  assumes "codec pm pr magic enc ok" "ok r"
  shows "pr (enc r @ rest) 0 = Parsed r (length (enc r))"
proof -
  have "pr ([] @ enc r @ rest) (length ([] :: byte list)) = Parsed r (length (enc r))"
    using assms unfolding codec_def by blast
  then show ?thesis by simp
qed

lemma gen_records_more:
  assumes "codec pm pr magic enc ok" "ok r" "strict_prefix p (enc r)"
  shows "generator_next pm pr inc h G_Records p = Some (Yield None, G_Records, p)"
proof -
  have "pr p 0 = Incomplete" using assms unfolding codec_def by blast
  then show ?thesis by (subst generator_next.simps) (simp add: read_step_def)
qed

lemma gen_records_plain:
  assumes "codec pm pr magic enc ok" "ok r" "\<not> is_chunk r" "\<not> is_footer r"
  shows "generator_next pm pr inc h G_Records (enc r @ rest) = Some (Yield (Some r), G_Records, rest)"
  using assms(3,4) codec_parse[OF assms(1,2)]
  by (subst generator_next.simps) (cases r; simp add: read_step_def)

lemma gen_records_footer:
  assumes "codec pm pr magic enc ok" "ok f" "is_footer f"
  shows "generator_next pm pr inc h G_Records (enc f @ rest) =
         generator_next pm pr inc h (G_TrailingMagic f) rest"
  using assms(3) codec_parse[OF assms(1,2)]
  by (subst generator_next.simps) (cases f; simp add: read_step_def)

lemma gen_chunk_body:
  assumes "chunk_buffer h c sz d = Some buf"
  shows "generator_next pm pr inc h (G_ChunkBody c sz d) st =
         generator_next pm pr inc h (G_ChunkLoop buf 0) st"
  using assms
  by (subst generator_next.simps)
     (auto simp: read_step_def chunk_buffer_def split: option.splits sum.splits if_splits)

lemma gen_records_chunk_skip:
  assumes "codec pm pr magic enc ok" "ok (Chunk c sz d)" "chunk_buffer h c sz d = Some buf"
  shows "generator_next pm pr False h G_Records (enc (Chunk c sz d) @ rest) =
         generator_next pm pr False h (G_ChunkLoop buf 0) rest"
  using codec_parse[OF assms(1,2)] gen_chunk_body[OF assms(3)]
  by (subst generator_next.simps) (simp add: read_step_def)

lemma gen_records_chunk_yield:
  assumes "codec pm pr magic enc ok" "ok (Chunk c sz d)"
  shows "generator_next pm pr True h G_Records (enc (Chunk c sz d) @ rest) =
         Some (Yield (Some (Chunk c sz d)), G_ChunkBody c sz d, rest)"
  using codec_parse[OF assms(1,2)]
  by (subst generator_next.simps) (simp add: read_step_def)

lemma gen_chunk_loop_nested:
  assumes "codec pm pr magic enc ok" "ok n" "nestable n" "drop off buf = enc n @ rest" "off \<le> length buf"
  shows "generator_next pm pr inc h (G_ChunkLoop buf off) st =
         Some (Yield (Some n), G_ChunkLoop buf (off + length (enc n)), st)"
proof -
  have b: "buf = take off buf @ enc n @ rest" using assms(4) by (metis append_take_drop_id)
  have l: "length (take off buf) = off" using assms(5) by simp
  have "pr (take off buf @ enc n @ rest) (length (take off buf)) = Parsed n (length (enc n))"
    using assms(1,2) unfolding codec_def by blast
  then have "pr buf off = Parsed n (length (enc n))" using b l by simp
  then show ?thesis using assms(3)
    by (subst generator_next.simps) (cases n; simp add: read_step_def)
qed

lemma gen_chunk_loop_end:
  assumes "codec pm pr magic enc ok"
  shows "generator_next pm pr inc h (G_ChunkLoop buf (length buf)) st =
         generator_next pm pr inc h G_Records st"
proof -
  have "pr buf (length buf) = Incomplete" using assms unfolding codec_def by blast
  then show ?thesis by (subst generator_next.simps) (simp add: read_step_def)
qed

lemma gen_trailing_more:
  assumes "codec pm pr magic enc ok" "strict_prefix p magic"
  shows "generator_next pm pr inc h (G_TrailingMagic f) p = Some (Yield None, G_TrailingMagic f, p)"
  using assms
  by (subst generator_next.simps) (simp add: read_step_def codec_def)

lemma gen_trailing_magic:
  assumes "codec pm pr magic enc ok"
  shows "generator_next pm pr inc h (G_TrailingMagic f) magic = Some (Return (Some f), G_Finished, [])"
proof -
  have "pm (magic @ []) 0 = Parsed () (length magic)" using assms unfolding codec_def by blast
  then show ?thesis by (subst generator_next.simps) (simp add: read_step_def)
qed

lemma drain_chunk_loop:
  assumes "codec pm pr magic enc ok"
  shows "list_all ok ns \<Longrightarrow> list_all nestable ns \<Longrightarrow> drop off buf = concat (map enc ns) \<Longrightarrow>
         off \<le> length buf \<Longrightarrow>
         drain pm pr (reader_in inc h (G_ChunkLoop buf off) st) acc =
         drain pm pr (reader_in inc h G_Records st) (acc @ ns)"
proof (induction ns arbitrary: off acc)
  case Nil
  then have "off = length buf" by simp
  then show ?case using drain_cong[OF gen_chunk_loop_end[OF assms]] by simp
next
  case (Cons n ns)
  have d: "drop off buf = enc n @ concat (map enc ns)" using Cons.prems(3) by simp
  have okn: "ok n" "nestable n" using Cons.prems(1,2) by simp_all
  have g: "generator_next pm pr inc h (G_ChunkLoop buf off) st =
         Some (Yield (Some n), G_ChunkLoop buf (off + length (enc n)), st)"
    by (rule gen_chunk_loop_nested[OF assms okn d Cons.prems(4)])
  have l: "length (enc n) \<le> length (drop off buf)" using d by simp
  then have le: "off + length (enc n) \<le> length buf" using Cons.prems(4) by simp
  have d': "drop (off + length (enc n)) buf = concat (map enc ns)"
    using d by (metis add.commute append_eq_conv_conj drop_drop)
  have "drain pm pr (reader_in inc h (G_ChunkLoop buf off) st) acc =
        drain pm pr (reader_in inc h (G_ChunkLoop buf (off + length (enc n))) st) (acc @ [n])"
    by (rule drain_yield[OF g])
  also have "\<dots> = drain pm pr (reader_in inc h G_Records st) ((acc @ [n]) @ ns)"
    using Cons.prems(1,2) by (intro Cons.IH[OF _ _ d' le]) simp_all
  finally show ?case by simp
qed

lemma reader_for_at_records:
  "at_records ts \<Longrightarrow> reader_for inc h ts st = reader_in inc h G_Records st"
  by (cases ts rule: at_records.cases) simp_all

lemma wf_tokens_tail: "wf_tokens enc ok h (t # ts) \<Longrightarrow> wf_tokens enc ok h ts"
  by (cases t) auto

lemma wf_tokens_suffix: "wf_tokens enc ok h (xs @ ys) \<Longrightarrow> wf_tokens enc ok h ys"
  by (induction xs) (auto dest: wf_tokens_tail)

lemma drain_item:
  assumes "codec pm pr magic enc ok" "wf_item enc ok h it"
  shows "drain pm pr (reader_in inc h G_Records (enc (fst it) @ rest)) acc =
         drain pm pr (reader_in inc h G_Records rest) (acc @ produced inc it)"
proof (cases "is_chunk (fst it)")
  case False
  have nf: "\<not> is_footer (fst it)" using assms(2) by (cases "fst it") (simp_all add: wf_item_def)
  have okr: "ok (fst it)" using assms(2) by (simp add: wf_item_def)
  show ?thesis
    using drain_yield[OF gen_records_plain[OF assms(1) okr False nf]] False
    by (simp add: produced_def)
next
  case True
  then obtain c sz d where r: "fst it = Chunk c sz d" by (cases "fst it") simp_all
  have okr: "ok (Chunk c sz d)" using assms(2) r by (simp add: wf_item_def)
  have b: "chunk_buffer h c sz d = Some (concat (map enc (snd it)))"
    and ns: "list_all ok (snd it)" "list_all nestable (snd it)"
    using assms(2) r by (simp_all add: wf_item_def)
  have loop: "drain pm pr (reader_in inc h (G_ChunkLoop (concat (map enc (snd it))) 0) rest) acc' =
              drain pm pr (reader_in inc h G_Records rest) (acc' @ snd it)" for acc'
    by (rule drain_chunk_loop[OF assms(1) ns]) simp_all
  show ?thesis
  proof (cases inc)
    case True
    have "drain pm pr (reader_in True h G_Records (enc (Chunk c sz d) @ rest)) acc =
          drain pm pr (reader_in True h (G_ChunkBody c sz d) rest) (acc @ [Chunk c sz d])"
      by (rule drain_yield[OF gen_records_chunk_yield[OF assms(1) okr]])
    also have "\<dots> = drain pm pr (reader_in True h (G_ChunkLoop (concat (map enc (snd it))) 0) rest)
                        (acc @ [Chunk c sz d])"
      by (rule drain_cong[OF gen_chunk_body[OF b]])
    finally show ?thesis using True r loop by (simp add: produced_def)
  next
    case False
    have "drain pm pr (reader_in False h G_Records (enc (Chunk c sz d) @ rest)) acc =
          drain pm pr (reader_in False h (G_ChunkLoop (concat (map enc (snd it))) 0) rest) acc"
      by (rule drain_cong[OF gen_records_chunk_skip[OF assms(1) okr b]])
    then show ?thesis using False r loop by (simp add: produced_def)
  qed
qed

lemma drain_token:
  assumes "codec pm pr magic enc ok" "wf_tokens enc ok h (t # ts)"
    "prefix q (concat (map (tok_enc magic enc) ts))"
  shows "drain pm pr (reader_for inc h (t # ts) (tok_enc magic enc t @ q)) acc =
         drain pm pr (reader_for inc h ts q) (acc @ tok_out inc t)"
proof (cases t)
  case TMagic
  then have "at_records ts" using assms(2) by simp
  then show ?thesis
    using TMagic drain_cong[OF gen_start_magic[OF assms(1)]] by (simp add: reader_for_at_records)
next
  case (TItem it)
  then have "at_records ts" "wf_item enc ok h it" using assms(2) by simp_all
  then show ?thesis
    using TItem drain_item[OF assms(1)] by (simp add: reader_for_at_records)
next
  case (TFooter f)
  then have f: "ok f" "is_footer f" "ts = [TTrail f]" using assms(2) by simp_all
  show ?thesis
    using TFooter f(3) drain_cong[OF gen_records_footer[OF assms(1) f(1,2)]] by simp
next
  case (TTrail f)
  then have "ts = []" using assms(2) by simp
  then have "q = []" using assms(3) by simp
  then show ?thesis
    using TTrail \<open>ts = []\<close> drain_return[OF gen_trailing_magic[OF assms(1)]]
    by (simp add: drain_done)
qed

lemma drain_partial:
  assumes "codec pm pr magic enc ok" "wf_tokens enc ok h (t # ts)"
    "strict_prefix q (tok_enc magic enc t)"
  shows "drain pm pr (reader_for inc h (t # ts) q) acc = Some (acc, None, reader_for inc h (t # ts) q)"
proof (cases t)
  case TMagic
  then show ?thesis using assms(3) drain_need_more[OF gen_start_more[OF assms(1)]] by simp
next
  case (TItem it)
  then have "ok (fst it)" using assms(2) by (simp add: wf_item_def)
  then show ?thesis using TItem assms(3) drain_need_more[OF gen_records_more[OF assms(1)]] by simp
next
  case (TFooter f)
  then have "ok f" using assms(2) by simp
  then show ?thesis using TFooter assms(3) drain_need_more[OF gen_records_more[OF assms(1)]] by simp
next
  case (TTrail f)
  then show ?thesis using assms(3) drain_need_more[OF gen_trailing_more[OF assms(1)]] by simp
qed

lemma drain_tokens:
  assumes "codec pm pr magic enc ok"
  shows "wf_tokens enc ok h todo \<Longrightarrow> prefix q (concat (map (tok_enc magic enc) todo)) \<Longrightarrow>
         \<exists>done' todo' rem.
           todo = done' @ todo' \<and> q = concat (map (tok_enc magic enc) done') @ rem \<and>
           (if todo' = [] then rem = [] else strict_prefix rem (tok_enc magic enc (hd todo'))) \<and>
           drain pm pr (reader_for inc h todo q) acc =
             Some (acc @ concat (map (tok_out inc) done'), None, reader_for inc h todo' rem)"
proof (induction todo arbitrary: q acc)
  case Nil
  then have "q = []" by simp
  then show ?case by (simp add: drain_done reader_in_def)
next
  case (Cons t ts)
  have p: "prefix q (tok_enc magic enc t @ concat (map (tok_enc magic enc) ts))"
    using Cons.prems(2) by simp
  show ?case
  proof (cases "strict_prefix q (tok_enc magic enc t)")
    case True
    have "drain pm pr (reader_for inc h (t # ts) q) acc = Some (acc, None, reader_for inc h (t # ts) q)"
      by (rule drain_partial[OF assms Cons.prems(1) True])
    then show ?thesis using True
      by (intro exI[of _ "[]"] exI[of _ "t # ts"] exI[of _ q]) simp
  next
    case False
    then obtain q' where q': "q = tok_enc magic enc t @ q'"
      "prefix q' (concat (map (tok_enc magic enc) ts))"
      using p by (auto simp: prefix_append strict_prefix_def)
    have wf: "wf_tokens enc ok h ts" using Cons.prems(1) by (rule wf_tokens_tail)
    from Cons.IH[OF wf q'(2), of "acc @ tok_out inc t"]
    obtain done' todo' rem where ih: "ts = done' @ todo'"
      "q' = concat (map (tok_enc magic enc) done') @ rem"
      "if todo' = [] then rem = [] else strict_prefix rem (tok_enc magic enc (hd todo'))"
      "drain pm pr (reader_for inc h ts q') (acc @ tok_out inc t) =
         Some ((acc @ tok_out inc t) @ concat (map (tok_out inc) done'), None, reader_for inc h todo' rem)"
      by blast
    have "drain pm pr (reader_for inc h (t # ts) q) acc =
          drain pm pr (reader_for inc h ts q') (acc @ tok_out inc t)"
      unfolding q'(1) by (rule drain_token[OF assms Cons.prems(1) q'(2)])
    then have "drain pm pr (reader_for inc h (t # ts) q) acc =
          Some (acc @ concat (map (tok_out inc) (t # done')), None, reader_for inc h todo' rem)"
      using ih(4) by simp
    then show ?thesis using ih(1,2,3) q'(1)
      by (intro exI[of _ "t # done'"] exI[of _ todo'] exI[of _ rem]) simp
  qed
qed

lemma reader_append_reader_for:
  "todo \<noteq> [] \<Longrightarrow> reader_append f (reader_for inc h todo rem) = Inr (reader_for inc h todo (rem @ f))"
proof (cases todo)
  case Nil
  assume "todo \<noteq> []"
  with Nil show ?thesis by simp
next
  case (Cons t ts)
  then show ?thesis by (cases t) (simp_all add: reader_append_def reader_in_def)
qed

lemma feed_tokens:
  assumes "codec pm pr magic enc ok"
  shows "wf_tokens enc ok h todo \<Longrightarrow>
         rem @ concat fragments = concat (map (tok_enc magic enc) todo) \<Longrightarrow>
         (if todo = [] then rem = [] else strict_prefix rem (tok_enc magic enc (hd todo))) \<Longrightarrow>
         [] \<notin> set fragments \<Longrightarrow>
         feed pm pr fragments (reader_for inc h todo rem) acc =
           Some (acc @ concat (map (tok_out inc) todo), None, reader_for inc h [] [])"
proof (induction fragments arbitrary: todo rem acc)
  case Nil
  show ?case
  proof (cases todo)
    case Nil
    then show ?thesis using Nil.prems(3) by simp
  next
    case (Cons t ts)
    then have "strict_prefix rem (tok_enc magic enc t)" using Nil.prems(3) by simp
    moreover have "rem = tok_enc magic enc t @ concat (map (tok_enc magic enc) ts)"
      using Nil.prems(2) Cons by simp
    ultimately have False using prefix_length_less by fastforce
    then show ?thesis ..
  qed
next
  case (Cons f fs)
  have f: "f \<noteq> []" and fs: "[] \<notin> set fs" using Cons.prems(4) by auto
  have ne: "todo \<noteq> []"
  proof
    assume "todo = []"
    then show False using Cons.prems(2) f by simp
  qed
  have a: "reader_append f (reader_for inc h todo rem) = Inr (reader_for inc h todo (rem @ f))"
    by (rule reader_append_reader_for[OF ne])
  have p: "prefix (rem @ f) (concat (map (tok_enc magic enc) todo))"
    using Cons.prems(2) by (metis append.assoc concat.simps(2) prefixI)
  from drain_tokens[OF assms Cons.prems(1) p, where inc = inc and acc = acc]
  obtain done' todo' rem' where d: "todo = done' @ todo'"
    "rem @ f = concat (map (tok_enc magic enc) done') @ rem'"
    "if todo' = [] then rem' = [] else strict_prefix rem' (tok_enc magic enc (hd todo'))"
    "drain pm pr (reader_for inc h todo (rem @ f)) acc =
       Some (acc @ concat (map (tok_out inc) done'), None, reader_for inc h todo' rem')"
    by blast
  have wf': "wf_tokens enc ok h todo'" using Cons.prems(1) d(1) wf_tokens_suffix by blast
  have "concat (map (tok_enc magic enc) done') @ rem' @ concat fs =
        concat (map (tok_enc magic enc) done') @ concat (map (tok_enc magic enc) todo')"
    using Cons.prems(2) d(1,2) by (metis append.assoc concat.simps(2) concat_append map_append)
  then have r: "rem' @ concat fs = concat (map (tok_enc magic enc) todo')" by simp
  have ih: "feed pm pr fs (reader_for inc h todo' rem') (acc @ concat (map (tok_out inc) done')) =
        Some ((acc @ concat (map (tok_out inc) done')) @ concat (map (tok_out inc) todo'), None,
              reader_for inc h [] [])"
    by (rule Cons.IH[OF wf' r d(3) fs])
  show ?case using a d(4) ih d(1) by simp
qed

lemma wf_tokens_items:
  "list_all (wf_item enc ok h) items \<Longrightarrow> ok footer \<Longrightarrow> is_footer footer \<Longrightarrow>
   wf_tokens enc ok h (map TItem items @ [TFooter footer, TTrail footer]) \<and>
   at_records (map TItem items @ [TFooter footer, TTrail footer])"
  by (induction items) auto

lemma concat_tok_enc_items:
  "concat (map (tok_enc magic enc \<circ> TItem) items) = concat (map (\<lambda>it. enc (fst it)) items)"
  by (induction items) simp_all

lemma concat_tok_out_items:
  "concat (map (tok_out inc \<circ> TItem) items) = concat (map (produced inc) items)"
  by (induction items) simp_all

subsection \<open>The byte format of the examples\<close>

lemma length_le_bytes [simp]: "length (le_bytes k n) = k"
  by (induction k arbitrary: n) simp_all

lemma unat_byte_of_nat_mod: "unat (of_nat (n mod 256) :: byte) = n mod 256"
  by (simp add: unat_of_nat)

lemma le_nat_le_bytes: "n < 256 ^ k \<Longrightarrow> le_nat (le_bytes k n) = n"
proof (induction k arbitrary: n)
  case 0
  then show ?case by simp
next
  case (Suc k)
  have "n div 256 < 256 ^ k" using Suc.prems by (simp add: less_mult_imp_div_less mult.commute)
  then have "le_nat (le_bytes k (n div 256)) = n div 256" by (rule Suc.IH)
  then show ?case by (simp add: unat_byte_of_nat_mod)
qed

lemma char_of_byte_of_char [simp]: "char_of_byte (byte_of_char c) = c"
proof -
  have "(of_char c :: nat) < 256" by simp
  then have "unat (of_nat (of_char c) :: byte) = of_char c"
    by (simp add: unat_of_nat)
  then show ?thesis by (simp add: char_of_byte_def byte_of_char_def)
qed

lemma map_char_of_byte [simp]: "map (char_of_byte \<circ> byte_of_char) c = c"
  by (induction c) simp_all

lemma decodePayload_encode:
  "encodable r \<Longrightarrow> decodePayload (record_tag r) (record_payload r) = Some r"
proof (cases r)
  case (Chunk c sz d)
  assume e: "encodable r"
  have sz: "sz < 256 ^ 8" using e Chunk by (simp add: encodable_def)
  have "length c \<le> length (record_payload r)" using Chunk by simp
  then have c: "length c < 256 ^ 4" using e by (simp add: encodable_def)
  show ?thesis using Chunk
    by (simp add: decodePayload_def le_nat_le_bytes[OF sz] le_nat_le_bytes[OF c])
qed (simp_all add: decodePayload_def)

lemma encodeRecord_length:
  "length (encodeRecord r) = 5 + length (record_payload r)"
  by (simp add: encodeRecord_def)

lemma mcap_parseRecord_encode:
  assumes "encodable r"
  shows "mcap_parseRecord (pre @ encodeRecord r @ rest) (length pre) = Parsed r (length (encodeRecord r))"
proof -
  have n: "length (record_payload r) < 256 ^ 4" using assms by (simp add: encodable_def)
  show ?thesis
    using decodePayload_encode[OF assms]
    by (simp add: mcap_parseRecord_def encodeRecord_def Let_def le_nat_le_bytes[OF n])
qed

lemma mcap_parseRecord_prefix:
  assumes "encodable r" "strict_prefix p (encodeRecord r)"
  shows "mcap_parseRecord p 0 = Incomplete"
proof (cases "length p < 5")
  case True
  then show ?thesis by (simp add: mcap_parseRecord_def)
next
  case False
  have n: "length (record_payload r) < 256 ^ 4" using assms(1) by (simp add: encodable_def)
  obtain zs where z: "encodeRecord r = p @ zs" "zs \<noteq> []"
    using assms(2) by (auto simp: strict_prefix_def prefix_def)
  have l: "length p < 5 + length (record_payload r)"
    using z by (metis encodeRecord_length length_append length_greater_0_conv less_add_same_cancel1)
  have "take 5 (encodeRecord r) = take 5 p" using z False by simp
  then have "take 4 (drop 1 (take 5 (encodeRecord r))) = take 4 (drop 1 (take 5 p))" by simp
  then have "take 4 (drop 1 p) = le_bytes 4 (length (record_payload r))"
    by (simp add: encodeRecord_def drop_take)
  then show ?thesis using False l
    by (simp add: mcap_parseRecord_def Let_def le_nat_le_bytes[OF n])
qed

lemma mcap_codec: "codec mcap_parseMagic mcap_parseRecord MCAP_MAGIC encodeRecord encodable"
  unfolding codec_def
proof (intro conjI allI impI)
  show "MCAP_MAGIC \<noteq> []" by (simp add: MCAP_MAGIC_def)
  show "mcap_parseMagic (MCAP_MAGIC @ rest) 0 = Parsed () (length MCAP_MAGIC)" for rest
    by (simp add: mcap_parseMagic_def)
  show "mcap_parseMagic p 0 = Incomplete" if "strict_prefix p MCAP_MAGIC" for p
    using prefix_length_less[OF that] by (simp add: mcap_parseMagic_def)
  show "encodeRecord r \<noteq> []" for r by (simp add: encodeRecord_def)
  show "mcap_parseRecord (pre @ encodeRecord r @ rest) (length pre) = Parsed r (length (encodeRecord r))"
    if "encodable r" for r pre rest using that by (rule mcap_parseRecord_encode)
  show "mcap_parseRecord p 0 = Incomplete" if "encodable r" "strict_prefix p (encodeRecord r)" for r p
    using that by (rule mcap_parseRecord_prefix)
  show "mcap_parseRecord buf (length buf) = Incomplete" for buf
    by (simp add: mcap_parseRecord_def)
qed

subsection \<open>Streams in fragments\<close>

lemma feed_stream:
  assumes "codec pm pr magic enc ok"
    and "list_all (wf_item enc ok handlers) items"
    and "ok footer" and "is_footer footer"
    and "concat fragments = encode_stream magic enc items footer"
    and "[] \<notin> set fragments"
  shows "feed pm pr fragments (new_reader inc handlers) [] =
           Some (concat (map (produced inc) items) @ [footer], None,
                 (reader_in inc handlers G_Finished [])\<lparr>doneReading := True\<rparr>)"
proof -
  let ?todo = "tokens_of items footer"
  have wf: "wf_tokens enc ok handlers ?todo"
    using wf_tokens_items[OF assms(2,3,4)] by simp
  have c: "[] @ concat fragments = concat (map (tok_enc magic enc) ?todo)"
    using assms(5) by (simp add: encode_stream_def concat_tok_enc_items)
  have m: "magic \<noteq> []" using assms(1) by (simp add: codec_def)
  have s: "if ?todo = [] then ([]::byte list) = [] else strict_prefix [] (tok_enc magic enc (hd ?todo))"
    using m by (simp add: strict_prefix_def)
  have "feed pm pr fragments (reader_for inc handlers ?todo []) [] =
           Some ([] @ concat (map (tok_out inc) ?todo), None, reader_for inc handlers [] [])"
    by (rule feed_tokens[OF assms(1) wf c s assms(6)])
  moreover have "reader_for inc handlers ?todo [] = new_reader inc handlers"
    by (simp add: new_reader_def reader_in_def)
  moreover have "concat (map (tok_out inc) ?todo) = concat (map (produced inc) items) @ [footer]"
    by (simp add: concat_tok_out_items)
  ultimately show ?thesis by simp
qed

lemma produced_plain:
  "\<forall>it \<in> set items. \<not> is_chunk (fst it) \<Longrightarrow> concat (map (produced inc) items) = map fst items"
  by (induction items) (simp_all add: produced_def)

lemma produced_single:
  "list_all (\<lambda>it. is_chunk (fst it) \<longrightarrow> inc \<and> snd it = []) items \<Longrightarrow>
   concat (map (produced inc) items) = map fst items"
  by (induction items) (auto simp: produced_def)

lemma nestable_not_chunk: "nestable r \<Longrightarrow> \<not> is_chunk r"
  by (cases r) simp_all

lemma produced_without_chunks:
  assumes "list_all (wf_item enc ok handlers) items"
  shows "\<forall>r \<in> set (concat (map (produced False) items)). \<not> is_chunk r"
proof -
  have "\<And>it r. wf_item enc ok handlers it \<Longrightarrow> r \<in> set (produced False it) \<Longrightarrow> \<not> is_chunk r"
  proof -
    fix it :: item and r
    assume w: "wf_item enc ok handlers it" and r: "r \<in> set (produced False it)"
    show "\<not> is_chunk r"
    proof (cases "is_chunk (fst it)")
      case True
      then obtain c sz d where c: "fst it = Chunk c sz d" by (cases "fst it") simp_all
      then have "list_all nestable (snd it)" using w by (simp add: wf_item_def)
      moreover have "r \<in> set (snd it)" using r True by (simp add: produced_def)
      ultimately show ?thesis using nestable_not_chunk by (auto simp: list_all_iff)
    next
      case False
      then show ?thesis using r by (simp add: produced_def)
    qed
  qed
  then show ?thesis using assms by (auto simp: list_all_iff)
qed

lemma length_produced:
  "length (concat (map (produced True) items)) =
   length items + sum_list (map (\<lambda>it. if is_chunk (fst it) then length (snd it) else 0) items)"
  by (induction items) (simp_all add: produced_def)

lemma produced_original_iff:
  assumes "list_all (wf_item enc ok handlers) items"
  shows "(concat (map (produced inc) items) = map fst items) =
         list_all (\<lambda>it. is_chunk (fst it) \<longrightarrow> inc \<and> snd it = []) items"
proof
  assume "list_all (\<lambda>it. is_chunk (fst it) \<longrightarrow> inc \<and> snd it = []) items"
  then show "concat (map (produced inc) items) = map fst items" by (rule produced_single)
next
  assume eq: "concat (map (produced inc) items) = map fst items"
  show "list_all (\<lambda>it. is_chunk (fst it) \<longrightarrow> inc \<and> snd it = []) items"
  proof (cases inc)
    case False
    have n: "\<forall>r \<in> set (concat (map (produced False) items)). \<not> is_chunk r"
      by (rule produced_without_chunks[OF assms])
    have "concat (map (produced False) items) = map fst items"
      using eq False by simp
    then have "\<forall>r \<in> set (map fst items). \<not> is_chunk r"
      using n by (simp only:)
    then show ?thesis by (simp add: list_all_iff)
  next
    case True
    have "length (concat (map (produced True) items)) = length items"
      using eq True by (metis length_map)
    then have "sum_list (map (\<lambda>it. if is_chunk (fst it) then length (snd it) else 0) items) = 0"
      by (simp add: length_produced)
    then have "\<forall>it \<in> set items. (if is_chunk (fst it) then length (snd it) else 0) = 0"
      by (simp add: sum_list_eq_0_iff)
    then show ?thesis using True by (auto simp: list_all_iff split: if_splits)
  qed
qed

lemma example_items_wf: "list_all (wf_item encodeRecord encodable no_handlers) example_items"
  by (simp add: example_items_def wf_item_def encodable_def chunk_buffer_def encodeRecord_length)

text \<open>
  C3, as stated, fails for a record sequence with a Chunk. The stream of the sequence
  [Chunk, Footer], where the data of the chunk is one encoded Message, is appended to a fresh
  reader with the default options in one fragment: \<open>nextRecord\<close> returns the Message of the
  chunk and the Footer, and not the Chunk. (With \<open>includeChunks\<close> the Chunk is returned and
  the Message after it, so the result is not the original sequence either.)
\<close>

theorem chunk_is_not_returned:
  "map_option fst (feed mcap_parseMagic mcap_parseRecord
      [encode_stream MCAP_MAGIC encodeRecord
         [(Chunk [] 0 (encodeRecord (Message [4])), [Message [4]])] (Footer [])]
      (new_reader False no_handlers) []) =
   Some [Message [4], Footer []]"
proof -
  let ?items = "[(Chunk [] 0 (encodeRecord (Message [4])), [Message [4]])]"
  let ?s = "encode_stream MCAP_MAGIC encodeRecord ?items (Footer [])"
  have w: "list_all (wf_item encodeRecord encodable no_handlers) ?items"
    by (simp add: wf_item_def encodable_def chunk_buffer_def encodeRecord_length)
  have e: "encodable (Footer [])" "is_footer (Footer [])"
    by (simp_all add: encodable_def)
  have c: "concat [?s] = ?s"
    by simp
  have n: "[] \<notin> set [?s]"
    by (simp add: encode_stream_def MCAP_MAGIC_def)
  have "feed mcap_parseMagic mcap_parseRecord [?s] (new_reader False no_handlers) [] =
          Some (concat (map (produced False) ?items) @ [Footer []], None,
                (reader_in False no_handlers G_Finished [])\<lparr>doneReading := True\<rparr>)"
    by (rule feed_stream [OF mcap_codec w e c n])
  then show ?thesis
    by (simp add: produced_def del: feed.simps)
qed

text \<open>
  C3, amended. Take top-level records that the encoder can encode, none of them a Footer,
  where the data of every Chunk is (after decompression, by the handler that the lookup of
  its compression finds, when the compression is not empty) the concatenation of encoded
  ChannelInfo and Message records, and a Footer; encode them as magic, records, Footer,
  magic, and cut the bytes into fragments that are not empty, in any way. Appending the
  fragments in order to a fresh reader and calling \<open>nextRecord\<close> after each until it
  returns \<open>undefined\<close> gives, in order, every record that is not a Chunk and, for a
  Chunk, the Chunk itself if \<open>includeChunks\<close> is set and then the records nested in it;
  the Footer comes last. Every call returns, none raises, and at the end the reader is done
  with no byte left. The result does not depend on the fragments. It is the original
  sequence if and only if the sequence has no Chunk, or \<open>includeChunks\<close> is set and
  no Chunk of the sequence has a nested record.
\<close>

theorem feed_fragments:
  assumes "codec pm pr magic enc ok"
    and "list_all (wf_item enc ok handlers) items"
    and "ok footer" and "is_footer footer"
    and "concat fragments = encode_stream magic enc items footer"
    and "[] \<notin> set fragments"
  shows "\<exists>r. feed pm pr fragments (new_reader inc handlers) [] =
               Some (concat (map (produced inc) items) @ [footer], None, r) \<and>
             doneReading r \<and> storage r = [] \<and>
             ((concat (map (produced inc) items) @ [footer] = map fst items @ [footer]) =
              list_all (\<lambda>it. is_chunk (fst it) \<longrightarrow> inc \<and> snd it = []) items) \<and>
             (list_all (\<lambda>it. \<not> is_chunk (fst it)) items \<longrightarrow>
                concat (map (produced inc) items) @ [footer] = map fst items @ [footer])"
proof -
  have a: "(concat (map (produced inc) items) @ [footer] = map fst items @ [footer]) =
           list_all (\<lambda>it. is_chunk (fst it) \<longrightarrow> inc \<and> snd it = []) items"
    using produced_original_iff[OF assms(2), of inc] by simp
  have b: "list_all (\<lambda>it. \<not> is_chunk (fst it)) items \<longrightarrow>
          concat (map (produced inc) items) @ [footer] = map fst items @ [footer]"
    using produced_plain[of items inc] by (simp add: list_all_iff)
  have "feed pm pr fragments (new_reader inc handlers) [] =
           Some (concat (map (produced inc) items) @ [footer], None,
                 (reader_in inc handlers G_Finished [])\<lparr>doneReading := True\<rparr>)"
    by (rule feed_stream[OF assms])
  then have "\<exists>r. feed pm pr fragments (new_reader inc handlers) [] =
               Some (concat (map (produced inc) items) @ [footer], None, r) \<and>
             doneReading r \<and> storage r = []"
    by (simp add: reader_in_def)
  then show ?thesis using a b by blast
qed

text \<open>The amended C3 for the example records, one byte at a time, with \<open>includeChunks\<close>.\<close>

theorem feed_fragments_witness:
  "\<exists>r. feed mcap_parseMagic mcap_parseRecord
          (map (\<lambda>b. [b]) (encode_stream MCAP_MAGIC encodeRecord example_items example_footer))
          (new_reader True no_handlers) [] =
        Some ([ChannelInfo [1, 2], Message [3],
               Chunk [] 0 (encodeRecord (Message [4]) @ encodeRecord (ChannelInfo [5])),
               Message [4], ChannelInfo [5], Footer [9, 9]], None, r) \<and>
       doneReading r \<and> storage r = []"
proof -
  have c: "concat (map (\<lambda>b. [b]) (encode_stream MCAP_MAGIC encodeRecord example_items example_footer)) =
           encode_stream MCAP_MAGIC encodeRecord example_items example_footer"
    by simp
  have e: "[] \<notin> set (map (\<lambda>b. [b]) (encode_stream MCAP_MAGIC encodeRecord example_items example_footer))"
    by auto
  have f: "encodable example_footer" "is_footer example_footer"
    by (simp_all add: example_footer_def encodable_def)
  have "\<exists>r. feed mcap_parseMagic mcap_parseRecord
          (map (\<lambda>b. [b]) (encode_stream MCAP_MAGIC encodeRecord example_items example_footer))
          (new_reader True no_handlers) [] =
        Some (concat (map (produced True) example_items) @ [example_footer], None, r) \<and>
       doneReading r \<and> storage r = []"
    using feed_fragments [OF mcap_codec example_items_wf f c e, of True] by blast
  then show ?thesis
    by (simp add: example_items_def example_footer_def produced_def)
qed

subsection \<open>The example stream\<close>

lemma nextRecord_done:
  "doneReading r \<Longrightarrow> nextRecord pm pr r = Some (Inr None, r)"
  by (simp add: nextRecord_def)

lemma append_after_done:
  "doneReading r \<Longrightarrow> reader_append bytes r = Inl AlreadyDoneReading"
  by (simp add: reader_append_def)

text \<open>
  C7, as stated, fails: the stream magic, ChannelInfo, Message, Footer, magic makes the reader
  return three records. The Footer is returned by \<open>nextRecord\<close> as the third one.
\<close>

theorem footer_is_returned:
  "map_option fst (feed mcap_parseMagic mcap_parseRecord [simple_stream]
      (new_reader False no_handlers) []) =
   Some [ChannelInfo [1, 2], Message [3], Footer [9, 9]]"
proof -
  let ?items = "[(ChannelInfo [1, 2], []), (Message [3], [])]"
  have w: "list_all (wf_item encodeRecord encodable no_handlers) ?items"
    by (simp add: wf_item_def encodable_def)
  have e: "encodable (Footer [9, 9])" "is_footer (Footer [9, 9])"
    by (simp_all add: encodable_def)
  have c: "concat [simple_stream] = encode_stream MCAP_MAGIC encodeRecord ?items (Footer [9, 9])"
    by (simp add: simple_stream_def encode_stream_def)
  have n: "[] \<notin> set [simple_stream]"
    by (simp add: simple_stream_def MCAP_MAGIC_def)
  have "feed mcap_parseMagic mcap_parseRecord [simple_stream] (new_reader False no_handlers) [] =
          Some (concat (map (produced False) ?items) @ [Footer [9, 9]], None,
                (reader_in False no_handlers G_Finished [])\<lparr>doneReading := True\<rparr>)"
    by (rule feed_stream [OF mcap_codec w e c n])
  then show ?thesis
    by (simp add: produced_def del: feed.simps)
qed

text \<open>
  C7, amended. After the bytes magic, ChannelInfo, Message, Footer, magic are appended to a
  fresh reader, three calls of \<open>nextRecord\<close> return the ChannelInfo, the Message and the
  Footer; \<open>done()\<close> is false after the first two and true after the third, when no byte
  remains; every later call returns \<open>undefined\<close> and leaves the reader as it is; no call
  raises. Appended in fragments that are not empty, the same bytes give the same three records
  and the same final reader.
\<close>

theorem example_stream_records:
  assumes "codec pm pr magic enc ok"
    and "ok (ChannelInfo a)" and "ok (Message b)" and "ok (Footer c)"
  shows "\<exists>r0 r1 r2 r3.
     reader_append (magic @ enc (ChannelInfo a) @ enc (Message b) @ enc (Footer c) @ magic)
       (new_reader inc h) = Inr r0 \<and>
     nextRecord pm pr r0 = Some (Inr (Some (ChannelInfo a)), r1) \<and> \<not> reader_done r1 \<and>
     nextRecord pm pr r1 = Some (Inr (Some (Message b)), r2) \<and> \<not> reader_done r2 \<and>
     nextRecord pm pr r2 = Some (Inr (Some (Footer c)), r3) \<and> reader_done r3 \<and>
     bytesRemaining r3 = 0 \<and>
     nextRecord pm pr r3 = Some (Inr None, r3) \<and>
     (\<forall>fragments.
        concat fragments = magic @ enc (ChannelInfo a) @ enc (Message b) @ enc (Footer c) @ magic \<and>
        [] \<notin> set fragments \<longrightarrow>
        feed pm pr fragments (new_reader inc h) [] =
          Some ([ChannelInfo a, Message b, Footer c], None, r3))"
proof -
  let ?s2 = "enc (Footer c) @ magic"
  let ?s1 = "enc (Message b) @ ?s2"
  let ?s0 = "magic @ enc (ChannelInfo a) @ ?s1"
  let ?r0 = "reader_in inc h G_Start ?s0"
  let ?r1 = "reader_in inc h G_Records ?s1"
  let ?r2 = "reader_in inc h G_Records ?s2"
  let ?r3 = "(reader_in inc h G_Finished [])\<lparr>doneReading := True\<rparr>"
  let ?items = "[(ChannelInfo a, []), (Message b, [])]"
  have a0: "reader_append ?s0 (new_reader inc h) = Inr ?r0"
    by (simp add: reader_append_def new_reader_def reader_in_def)
  have g0: "generator_next pm pr inc h G_Start ?s0 = Some (Yield (Some (ChannelInfo a)), G_Records, ?s1)"
    using gen_start_magic [OF assms(1), of inc h "enc (ChannelInfo a) @ ?s1"]
      gen_records_plain [OF assms(1,2), of inc h ?s1] by simp
  have g1: "generator_next pm pr inc h G_Records ?s1 = Some (Yield (Some (Message b)), G_Records, ?s2)"
    using gen_records_plain [OF assms(1,3), of inc h ?s2] by simp
  have g2: "generator_next pm pr inc h G_Records ?s2 = Some (Return (Some (Footer c)), G_Finished, [])"
    using gen_records_footer [OF assms(1,4), of inc h magic]
      gen_trailing_magic [OF assms(1), of inc h "Footer c"] by simp
  have n0: "nextRecord pm pr ?r0 = Some (Inr (Some (ChannelInfo a)), ?r1)"
    by (simp add: nextRecord_reader_in g0)
  have n1: "nextRecord pm pr ?r1 = Some (Inr (Some (Message b)), ?r2)"
    by (simp add: nextRecord_reader_in g1)
  have n2: "nextRecord pm pr ?r2 = Some (Inr (Some (Footer c)), ?r3)"
    by (simp add: nextRecord_reader_in g2)
  have n3: "nextRecord pm pr ?r3 = Some (Inr None, ?r3)"
    by (rule nextRecord_done) simp
  have d: "\<not> reader_done ?r1" "\<not> reader_done ?r2" "reader_done ?r3" "bytesRemaining ?r3 = 0"
    by (simp_all add: reader_done_def bytesRemaining_def reader_in_def)
  have w: "list_all (wf_item enc ok h) ?items"
    using assms(2,3) by (simp add: wf_item_def)
  have f: "\<forall>fragments. concat fragments = ?s0 \<and> [] \<notin> set fragments \<longrightarrow>
             feed pm pr fragments (new_reader inc h) [] =
               Some ([ChannelInfo a, Message b, Footer c], None, ?r3)"
  proof (intro allI impI)
    fix fragments
    assume h: "concat fragments = ?s0 \<and> [] \<notin> set fragments"
    then have c: "concat fragments = encode_stream magic enc ?items (Footer c)"
      by (simp add: encode_stream_def)
    have i: "is_footer (Footer c)" by simp
    have n: "[] \<notin> set fragments" using h by simp
    show "feed pm pr fragments (new_reader inc h) [] =
            Some ([ChannelInfo a, Message b, Footer c], None, ?r3)"
      using feed_stream [OF assms(1) w assms(4) i c n, of inc] by (simp add: produced_def)
  qed
  from a0 n0 n1 n2 n3 d f show ?thesis by blast
qed

text \<open>The amended C7 in the byte format of the examples, in one fragment and byte by byte.\<close>

theorem example_stream_records_witness:
  "\<exists>r0 r1 r2 r3.
     reader_append simple_stream (new_reader False no_handlers) = Inr r0 \<and>
     nextRecord mcap_parseMagic mcap_parseRecord r0 = Some (Inr (Some (ChannelInfo [1, 2])), r1) \<and>
     \<not> reader_done r1 \<and>
     nextRecord mcap_parseMagic mcap_parseRecord r1 = Some (Inr (Some (Message [3])), r2) \<and>
     \<not> reader_done r2 \<and>
     nextRecord mcap_parseMagic mcap_parseRecord r2 = Some (Inr (Some (Footer [9, 9])), r3) \<and>
     reader_done r3 \<and> bytesRemaining r3 = 0 \<and>
     nextRecord mcap_parseMagic mcap_parseRecord r3 = Some (Inr None, r3) \<and>
     feed mcap_parseMagic mcap_parseRecord (map (\<lambda>b. [b]) simple_stream)
       (new_reader False no_handlers) [] =
       Some ([ChannelInfo [1, 2], Message [3], Footer [9, 9]], None, r3)"
proof -
  have e: "encodable (ChannelInfo [1, 2])" "encodable (Message [3])" "encodable (Footer [9, 9])"
    by (simp_all add: encodable_def)
  have c: "concat (map (\<lambda>b. [b]) simple_stream) = simple_stream"
    by simp
  have n: "[] \<notin> set (map (\<lambda>b. [b]) simple_stream)"
    by auto
  obtain r0 r1 r2 r3 where r:
    "reader_append simple_stream (new_reader False no_handlers) = Inr r0"
    "nextRecord mcap_parseMagic mcap_parseRecord r0 = Some (Inr (Some (ChannelInfo [1, 2])), r1)"
    "\<not> reader_done r1"
    "nextRecord mcap_parseMagic mcap_parseRecord r1 = Some (Inr (Some (Message [3])), r2)"
    "\<not> reader_done r2"
    "nextRecord mcap_parseMagic mcap_parseRecord r2 = Some (Inr (Some (Footer [9, 9])), r3)"
    "reader_done r3" "bytesRemaining r3 = 0"
    "nextRecord mcap_parseMagic mcap_parseRecord r3 = Some (Inr None, r3)"
    "\<forall>fragments. concat fragments = simple_stream \<and> [] \<notin> set fragments \<longrightarrow>
       feed mcap_parseMagic mcap_parseRecord fragments (new_reader False no_handlers) [] =
         Some ([ChannelInfo [1, 2], Message [3], Footer [9, 9]], None, r3)"
    using example_stream_records [OF mcap_codec e, of False no_handlers]
    unfolding simple_stream_def by blast
  from r(10) c n
  have "feed mcap_parseMagic mcap_parseRecord (map (\<lambda>b. [b]) simple_stream)
          (new_reader False no_handlers) [] =
        Some ([ChannelInfo [1, 2], Message [3], Footer [9, 9]], None, r3)"
    by blast
  with r show ?thesis by blast
qed

subsection \<open>Fatal failures\<close>

lemma generator_finished:
  "generator_next pm pr inc h G_Finished st = Some (Return None, G_Finished, st)"
  by (simp add: generator_next.simps[of pm pr inc h G_Finished] read_step_def)

lemma nextRecord_finished:
  assumes "generator r = G_Finished"
  shows "\<exists>r'. nextRecord pm pr r = Some (Inr None, r') \<and> generator r' = G_Finished"
  using assms by (simp add: nextRecord_def generator_finished)

lemma run_calls_finished:
  "generator r = G_Finished \<Longrightarrow> \<exists>r'. run_calls pm pr calls r = Some ([], r')"
proof (induction calls arbitrary: r)
  case Nil
  then show ?case by simp
next
  case (Cons c calls)
  show ?case
  proof (cases c)
    case (Append bytes)
    show ?thesis
    proof (cases "reader_append bytes r")
      case (Inl e)
      then show ?thesis using Cons.IH[OF Cons.prems] Append by simp
    next
      case (Inr r1)
      then have "generator r1 = G_Finished"
        using Cons.prems by (auto simp: reader_append_def split: if_splits)
      from Cons.IH[OF this] show ?thesis using Append Inr by simp
    qed
  next
    case NextRecord
    obtain r1 where r1: "nextRecord pm pr r = Some (Inr None, r1)" "generator r1 = G_Finished"
      using nextRecord_finished[OF Cons.prems] by blast
    from Cons.IH[OF r1(2)] obtain r2 where "run_calls pm pr calls r1 = Some ([], r2)" by blast
    then show ?thesis using NextRecord r1(1) by simp
  qed
qed

lemma fatalI:
  assumes "\<not> doneReading r"
    and "generator_next pm pr (includeChunks r) (decompressHandlers r) (generator r) (storage r) =
           Some (Throw e, G_Finished, st)"
  shows "fatal pm pr r"
proof -
  have "nextRecord pm pr r = Some (Inl e, r\<lparr>storage := st, generator := G_Finished\<rparr>)"
    using assms by (simp add: nextRecord_def)
  moreover have "\<forall>calls. \<exists>r''. run_calls pm pr calls (r\<lparr>storage := st, generator := G_Finished\<rparr>) = Some ([], r'')"
    using run_calls_finished[of "r\<lparr>storage := st, generator := G_Finished\<rparr>"] by simp
  ultimately show ?thesis unfolding fatal_def by blast
qed

lemma throw_start:
  "pm st 0 = Malformed \<Longrightarrow> generator_next pm pr inc h G_Start st = Some (Throw ParseFailure, G_Finished, st)"
  by (simp add: generator_next.simps[of pm pr inc h G_Start] read_step_def)

lemma throw_trailing:
  "pm st 0 = Parsed u n \<Longrightarrow> drop n st \<noteq> [] \<Longrightarrow>
   generator_next pm pr inc h (G_TrailingMagic f) st =
     Some (Throw (BytesRemainingAfterFooter (length (drop n st))), G_Finished, drop n st)"
  by (simp add: generator_next.simps[of pm pr inc h "G_TrailingMagic f"] read_step_def)

lemma throw_footer:
  "pr st 0 = Parsed (Footer p) n \<Longrightarrow> pm (drop n st) 0 = Parsed u m \<Longrightarrow> drop m (drop n st) \<noteq> [] \<Longrightarrow>
   generator_next pm pr inc h G_Records st =
     Some (Throw (BytesRemainingAfterFooter (length (drop m (drop n st)))), G_Finished, drop m (drop n st))"
  using throw_trailing[of pm "drop n st" u m pr inc h "Footer p"]
  by (simp add: generator_next.simps[of pm pr inc h G_Records] read_step_def)

lemma throw_nested:
  "pr buf off = Parsed record used \<Longrightarrow> \<not> nestable record \<Longrightarrow>
   generator_next pm pr inc h (G_ChunkLoop buf off) st =
     Some (Throw (NotAllowedInsideChunk (record_type record)), G_Finished, st)"
  by (cases "record") (simp_all add: generator_next.simps[of pm pr inc h "G_ChunkLoop buf off"] read_step_def)

lemma throw_chunk_body_nested:
  "chunk_buffer h c sz d = Some buf \<Longrightarrow> pr buf 0 = Parsed record used \<Longrightarrow> \<not> nestable record \<Longrightarrow>
   generator_next pm pr inc h (G_ChunkBody c sz d) st =
     Some (Throw (NotAllowedInsideChunk (record_type record)), G_Finished, st)"
  using gen_chunk_body[of h c sz d buf pm pr inc st] throw_nested[of pr buf 0 "record" used pm inc h st]
  by simp

lemma throw_compression:
  "c \<noteq> [] \<Longrightarrow> handler_for h c = None \<Longrightarrow>
   generator_next pm pr inc h (G_ChunkBody c sz d) st =
     Some (Throw (UnsupportedCompression c), G_Finished, st)"
  by (simp add: generator_next.simps[of pm pr inc h "G_ChunkBody c sz d"] read_step_def)

lemma skip_chunk:
  "pr st 0 = Parsed (Chunk c sz d) n \<Longrightarrow>
   generator_next pm pr False h G_Records st = generator_next pm pr False h (G_ChunkBody c sz d) (drop n st)"
  by (simp add: generator_next.simps[of pm pr False h G_Records] read_step_def)

lemma not_nestable_iff:
  "\<not> nestable r \<longleftrightarrow> record_type r \<in> {''Chunk'', ''IndexData'', ''ChunkInfo'', ''Footer''}"
  by (cases r) simp_all

lemma resumes_at_generator_next:
  "resumes_at pm pr inc h g st g' st' \<Longrightarrow>
   generator_next pm pr inc h g st = generator_next pm pr inc h g' st'"
proof (induction rule: resumes_at.induct)
  case (here g st)
  show ?case by simp
next
  case (later g st g' st' g'' st'')
  show ?case using later.hyps(1) later.IH by (subst generator_next.simps) simp
qed

text \<open>
  The exceptions of \<open>read()\<close> are fatal. Let a reader that is not done be called with
  \<open>nextRecord\<close>, and let the call arrive at one of these points of \<open>read()\<close>: the
  leading magic, where \<open>parseMagic\<close> rejects the bytes; the test after the trailing magic
  of the Footer, with bytes remaining; the loop over the records of a chunk, where the record
  parsed is neither a ChannelInfo nor a Message (so it is a Chunk, an IndexData, a ChunkInfo
  or a Footer; lemma \<open>not_nestable_iff\<close>); the decompression of a chunk whose compression
  is not empty and for which the lookup finds nothing. Then the call raises, and whatever
  sequence of \<open>append\<close> and \<open>nextRecord\<close> calls follows, no record is returned by the
  reader.
\<close>

lemma failure_points_are_fatal:
  assumes "\<not> doneReading r"
    and "resumes_at pm pr (includeChunks r) (decompressHandlers r) (generator r) (storage r) g st"
    and "(g = G_Start \<and> pm st 0 = Malformed) \<or>
         (g = G_TrailingMagic footer \<and> pm st 0 = Parsed u n \<and> drop n st \<noteq> []) \<or>
         (g = G_ChunkLoop buffer chunkOffset \<and> pr buffer chunkOffset = Parsed nested used \<and>
            \<not> nestable nested) \<or>
         (g = G_ChunkBody compression sz chunkData \<and> compression \<noteq> [] \<and>
            handler_for (decompressHandlers r) compression = None)"
  shows "fatal pm pr r"
proof -
  have "\<exists>e st'. generator_next pm pr (includeChunks r) (decompressHandlers r) g st =
          Some (Throw e, G_Finished, st')"
    using assms(3) throw_start throw_trailing throw_nested throw_compression by fastforce
  then obtain e st' where
    "generator_next pm pr (includeChunks r) (decompressHandlers r) (generator r) (storage r) =
       Some (Throw e, G_Finished, st')"
    using resumes_at_generator_next[OF assms(2)] by auto
  then show ?thesis by (rule fatalI[OF assms(1)])
qed

text \<open>
  A fresh reader that was given eight bytes that are not the magic, and one that was given
  the magic and a chunk with a Footer nested in it.
\<close>

lemma failure_points_example:
  "fatal mcap_parseMagic mcap_parseRecord
     (reader_in False no_handlers G_Start [0, 0, 0, 0, 0, 0, 0, 0]) \<and>
   fatal mcap_parseMagic mcap_parseRecord
     (reader_in False no_handlers G_Start
        (MCAP_MAGIC @ encodeRecord (Chunk [] 0 (encodeRecord (Footer [])))))"
proof -
  let ?bad = "reader_in False no_handlers G_Start [0, 0, 0, 0, 0, 0, 0, 0]"
  let ?buf = "encodeRecord (Footer [])"
  let ?chunk = "Chunk [] 0 ?buf"
  let ?r = "reader_in False no_handlers G_Start (MCAP_MAGIC @ encodeRecord ?chunk)"
  have m: "mcap_parseMagic [0, 0, 0, 0, 0, 0, 0, 0] 0 = Malformed"
    by (simp add: mcap_parseMagic_def MCAP_MAGIC_def)
  have a: "fatal mcap_parseMagic mcap_parseRecord ?bad"
    using failure_points_are_fatal [of ?bad mcap_parseMagic mcap_parseRecord G_Start
        "[0, 0, 0, 0, 0, 0, 0, 0]"] m
    by (simp add: reader_in_def resumes_at.here)
  have e: "encodable ?chunk" "encodable (Footer [])"
    by (simp_all add: encodable_def encodeRecord_length)
  have p0: "mcap_parseMagic (MCAP_MAGIC @ encodeRecord ?chunk) 0 = Parsed () (length MCAP_MAGIC)"
    using mcap_codec unfolding codec_def by blast
  have p1: "mcap_parseRecord (encodeRecord ?chunk) 0 = Parsed ?chunk (length (encodeRecord ?chunk))"
    using codec_parse [OF mcap_codec e(1), of "[]"] by simp
  have p2: "mcap_parseRecord ?buf 0 = Parsed (Footer []) (length ?buf)"
    using codec_parse [OF mcap_codec e(2), of "[]"] by simp
  have s3: "resumes_at mcap_parseMagic mcap_parseRecord False no_handlers (G_ChunkBody [] 0 ?buf) []
              (G_ChunkLoop ?buf 0) []"
    by (rule resumes_at.later [OF _ resumes_at.here]) (simp add: read_step_def)
  have s2: "resumes_at mcap_parseMagic mcap_parseRecord False no_handlers G_Records (encodeRecord ?chunk)
              (G_ChunkLoop ?buf 0) []"
    by (rule resumes_at.later [OF _ s3]) (simp add: read_step_def p1)
  have s1: "resumes_at mcap_parseMagic mcap_parseRecord False no_handlers G_Start
              (MCAP_MAGIC @ encodeRecord ?chunk) (G_ChunkLoop ?buf 0) []"
    by (rule resumes_at.later [OF _ s2]) (simp add: read_step_def p0)
  have b: "fatal mcap_parseMagic mcap_parseRecord ?r"
    using failure_points_are_fatal [of ?r mcap_parseMagic mcap_parseRecord "G_ChunkLoop ?buf 0" "[]"
        _ _ _ ?buf 0 "Footer []" "length ?buf"] s1 p2
    by (simp add: reader_in_def)
  from a b show ?thesis by simp
qed

text \<open>
  C5 fails in the code for a chunk that names a compression which is not registered but is a
  name that every object inherits. A fresh reader with the default options, where no handler
  is registered, is given the stream magic, Chunk, Footer, magic in one fragment; the Chunk
  has the compression \<open>constructor\<close> and one encoded Message as its data. No call raises:
  \<open>nextRecord\<close> returns the Message and the Footer, and the reader is done. The same
  stream with the compression \<open>lz4\<close> makes the first call of \<open>nextRecord\<close> raise
  "Unsupported compression lz4".
\<close>

theorem inherited_compression_is_accepted:
  "no_handlers ''constructor'' = None \<and>
   map_option (\<lambda>(records, error, r). (records, error, doneReading r))
     (feed mcap_parseMagic mcap_parseRecord
        [encode_stream MCAP_MAGIC encodeRecord
           [(Chunk ''constructor'' 0 (encodeRecord (Message [4])), [Message [4]])] (Footer [])]
        (new_reader False no_handlers) []) =
     Some ([Message [4], Footer []], None, True) \<and>
   map_option fst
     (nextRecord mcap_parseMagic mcap_parseRecord
        (reader_in False no_handlers G_Start
           (encode_stream MCAP_MAGIC encodeRecord
              [(Chunk ''lz4'' 0 (encodeRecord (Message [4])), [Message [4]])] (Footer [])))) =
     Some (Inl (UnsupportedCompression ''lz4''))"
proof -
  let ?d = "encodeRecord (Message [4])"
  let ?items = "[(Chunk ''constructor'' 0 ?d, [Message [4]])]"
  let ?s = "encode_stream MCAP_MAGIC encodeRecord ?items (Footer [])"
  have u: "no_handlers ''constructor'' = None"
    by (simp add: no_handlers_def)
  have w: "list_all (wf_item encodeRecord encodable no_handlers) ?items"
    by (simp add: wf_item_def encodable_def chunk_buffer_def handler_for_def no_handlers_def
        encodeRecord_length)
  have e: "encodable (Footer [])" "is_footer (Footer [])"
    by (simp_all add: encodable_def)
  have c: "concat [?s] = ?s"
    by simp
  have n: "[] \<notin> set [?s]"
    by (simp add: encode_stream_def MCAP_MAGIC_def)
  have "feed mcap_parseMagic mcap_parseRecord [?s] (new_reader False no_handlers) [] =
          Some (concat (map (produced False) ?items) @ [Footer []], None,
                (reader_in False no_handlers G_Finished [])\<lparr>doneReading := True\<rparr>)"
    by (rule feed_stream [OF mcap_codec w e c n])
  then have a: "map_option (\<lambda>(records, error, r). (records, error, doneReading r))
     (feed mcap_parseMagic mcap_parseRecord [?s] (new_reader False no_handlers) []) =
     Some ([Message [4], Footer []], None, True)"
    by (simp add: produced_def reader_in_def del: feed.simps)
  let ?lz = "Chunk ''lz4'' 0 ?d"
  let ?rest = "encodeRecord (Footer []) @ MCAP_MAGIC"
  have el: "encodable ?lz"
    by (simp add: encodable_def encodeRecord_length)
  have p: "mcap_parseRecord (encodeRecord ?lz @ ?rest) 0 = Parsed ?lz (length (encodeRecord ?lz))"
    by (rule codec_parse [OF mcap_codec el])
  have h: "handler_for no_handlers ''lz4'' = None"
    by (simp add: handler_for_def no_handlers_def Object_prototype_def)
  have "generator_next mcap_parseMagic mcap_parseRecord False no_handlers G_Start
          (MCAP_MAGIC @ encodeRecord ?lz @ ?rest) =
        Some (Throw (UnsupportedCompression ''lz4''), G_Finished, ?rest)"
    using gen_start_magic [OF mcap_codec, of False no_handlers "encodeRecord ?lz @ ?rest"]
      skip_chunk [where pr = mcap_parseRecord and st = "encodeRecord ?lz @ ?rest" and c = "''lz4''"
        and sz = 0 and d = ?d and n = "length (encodeRecord ?lz)" and pm = mcap_parseMagic
        and h = no_handlers]
      throw_compression [where c = "''lz4''" and h = no_handlers and pm = mcap_parseMagic
        and pr = mcap_parseRecord and inc = False and sz = 0 and d = ?d and st = ?rest]
      p h
    by simp
  then have b: "map_option fst
     (nextRecord mcap_parseMagic mcap_parseRecord
        (reader_in False no_handlers G_Start
           (encode_stream MCAP_MAGIC encodeRecord [(?lz, [Message [4]])] (Footer [])))) =
     Some (Inl (UnsupportedCompression ''lz4''))"
    by (simp add: nextRecord_reader_in encode_stream_def)
  from u a b show ?thesis by blast
qed

end
